theory Spec2Isabelle
  imports Main
begin

section \<open>Data model of \<^verbatim>\<open>Connect4.tsx\<close>\<close>

text \<open>
  \<^verbatim>\<open>type Player = red | yellow | null\<close> (the two tokens are emoji strings in the
  source): a cell of the board. The tokens are the constructors of \<open>player\<close>; \<open>None\<close>
  is JavaScript's \<open>null\<close>, the Empty cell.
  \<^verbatim>\<open>type Board = Player[][]\<close>: an array of rows, each an array of cells.
\<close>

datatype player = Red | Yellow

type_synonym cell = "player option"

type_synonym board = "cell list list"

type_synonym coord = "int \<times> int"

datatype gameMode = TwoPlayer | SinglePlayer

record gameState =
  board :: board
  currentPlayer :: cell
  winner :: cell
  winningLine :: "coord list option"
  gameMode :: gameMode
  isBotThinking :: bool
  animatingPiece :: "coord option"

definition ROWS :: int where
  "ROWS = 6"

definition COLS :: int where
  "COLS = 7"

text \<open>\<^verbatim>\<open>Array(ROWS).fill(null).map(() => Array(COLS).fill(null))\<close>\<close>

definition initializeBoard :: board where
  "initializeBoard = replicate (nat ROWS) (replicate (nat COLS) None)"

subsection \<open>Reading and writing \<^verbatim>\<open>board[row][col]\<close>\<close>

text \<open>
  An array read outside the array gives \<open>undefined\<close>, and reading a property of
  \<open>undefined\<close> throws a \<open>TypeError\<close>. So \<^verbatim>\<open>board[row][col]\<close> throws when \<open>row\<close> is
  not an index of \<open>board\<close>, is \<open>undefined\<close> when \<open>col\<close> is not an index of that row,
  and is the stored cell otherwise.
\<close>

datatype error = TypeError

datatype jsread = Undefined | Value cell

definition readCell :: "board \<Rightarrow> int \<Rightarrow> int \<Rightarrow> error + jsread" where
  "readCell b row col =
     (if row < 0 \<or> int (length b) \<le> row then Inl TypeError
      else if col < 0 \<or> int (length (b ! nat row)) \<le> col then Inr Undefined
      else Inr (Value (b ! nat row ! nat col)))"

text \<open>
  \<^verbatim>\<open>board[row][col] = v\<close> on a copy of the board. The source only writes where
  \<open>getLowestEmptyRow\<close> has just read \<open>null\<close>, which is an existing element
  (lemma \<open>getLowestEmptyRow_in_board\<close> below), so the write never extends an array.
\<close>

definition writeCell :: "board \<Rightarrow> int \<Rightarrow> int \<Rightarrow> cell \<Rightarrow> board" where
  "writeCell b row col v = b[nat row := (b ! nat row)[nat col := v]]"

text \<open>The boards of the game: \<open>ROWS\<close> rows of \<open>COLS\<close> cells.\<close>

definition wf_board :: "board \<Rightarrow> bool" where
  "wf_board b = (int (length b) = ROWS \<and> list_all (\<lambda>rw. int (length rw) = COLS) b)"

section \<open>Move resolver\<close>

text \<open>
  \<^verbatim>\<open>for (let row = ROWS - 1; row >= 0; row--) { if (board[row][col] === null) return row; }
  return -1;\<close>
\<close>

function getLowestEmptyRow_loop :: "board \<Rightarrow> int \<Rightarrow> int \<Rightarrow> error + int" where
  "getLowestEmptyRow_loop b col row =
     (if row \<ge> 0 then
        (case readCell b row col of
           Inl e \<Rightarrow> Inl e
         | Inr v \<Rightarrow> if v = Value None then Inr row
                    else getLowestEmptyRow_loop b col (row - 1))
      else Inr (- 1))"
  by pat_completeness auto
termination
  by (relation "measure (\<lambda>(b, col, row). nat (row + 1))") auto

definition getLowestEmptyRow :: "board \<Rightarrow> int \<Rightarrow> error + int" where
  "getLowestEmptyRow b col = getLowestEmptyRow_loop b col (ROWS - 1)"

section \<open>Win detector\<close>

text \<open>
  The four axes, each a pair of opposite steps \<open>[dr, dc]\<close>:
  horizontal, vertical, diagonal down-right, diagonal down-left.
\<close>

definition directions :: "(int \<times> int) list list" where
  "directions =
     [[(0, 1), (0, - 1)],
      [(1, 0), (- 1, 0)],
      [(1, 1), (- 1, - 1)],
      [(1, - 1), (- 1, 1)]]"

text \<open>
  The inner loop of \<open>checkWinner\<close>, entered with \<open>r = row + dr\<close>, \<open>c = col + dc\<close>:
  \<^verbatim>\<open>while (r >= 0 && r < ROWS && c >= 0 && c < COLS && board[r][c] === player) {
    line.push([r, c]); r += dr; c += dc; }\<close>
  With \<open>dr = dc = 0\<close> the loop would not end, so not returning is the value \<open>None\<close>.
\<close>

partial_function (option) checkWinner_while ::
  "board \<Rightarrow> player \<Rightarrow> int \<Rightarrow> int \<Rightarrow> int \<Rightarrow> int \<Rightarrow> coord list \<Rightarrow> (error + coord list) option" where
  "checkWinner_while b pl dr dc r c line =
     (if r \<ge> 0 \<and> r < ROWS \<and> c \<ge> 0 \<and> c < COLS then
        (case readCell b r c of
           Inl e \<Rightarrow> Some (Inl e)
         | Inr v \<Rightarrow> if v = Value (Some pl)
                    then checkWinner_while b pl dr dc (r + dr) (c + dc) (line @ [(r, c)])
                    else Some (Inr line))
      else Some (Inr line))"

declare checkWinner_while.simps [code]

text \<open>\<^verbatim>\<open>for (const [dr, dc] of direction) { let r = row + dr; let c = col + dc; while ... }\<close>\<close>

fun checkWinner_direction ::
  "board \<Rightarrow> player \<Rightarrow> int \<Rightarrow> int \<Rightarrow> (int \<times> int) list \<Rightarrow> coord list \<Rightarrow> (error + coord list) option" where
  "checkWinner_direction b pl row col [] line = Some (Inr line)"
| "checkWinner_direction b pl row col ((dr, dc) # ds) line =
     (case checkWinner_while b pl dr dc (row + dr) (col + dc) line of
        None \<Rightarrow> None
      | Some (Inl e) \<Rightarrow> Some (Inl e)
      | Some (Inr line') \<Rightarrow> checkWinner_direction b pl row col ds line')"

text \<open>
  \<^verbatim>\<open>for (const direction of directions) { const line = [[row, col]]; ...
    if (line.length >= 4) return line; }  return null;\<close>
\<close>

fun checkWinner_directions ::
  "board \<Rightarrow> player \<Rightarrow> int \<Rightarrow> int \<Rightarrow> (int \<times> int) list list \<Rightarrow> (error + coord list option) option" where
  "checkWinner_directions b pl row col [] = Some (Inr None)"
| "checkWinner_directions b pl row col (direction # rest) =
     (case checkWinner_direction b pl row col direction [(row, col)] of
        None \<Rightarrow> None
      | Some (Inl e) \<Rightarrow> Some (Inl e)
      | Some (Inr line) \<Rightarrow>
          if length line \<ge> 4 then Some (Inr (Some line))
          else checkWinner_directions b pl row col rest)"

text \<open>\<^verbatim>\<open>const player = board[row][col]; if (!player) return null;\<close> and the loop over the axes.\<close>

definition checkWinner :: "board \<Rightarrow> int \<Rightarrow> int \<Rightarrow> (error + coord list option) option" where
  "checkWinner b row col =
     (case readCell b row col of
        Inl e \<Rightarrow> Some (Inl e)
      | Inr Undefined \<Rightarrow> Some (Inr None)
      | Inr (Value None) \<Rightarrow> Some (Inr None)
      | Inr (Value (Some pl)) \<Rightarrow> checkWinner_directions b pl row col directions)"

subsection \<open>The boolean variant used by the bot\<close>

text \<open>The same loops with \<^verbatim>\<open>count++\<close> in place of \<^verbatim>\<open>line.push([r, c])\<close>.\<close>

partial_function (option) checkWinnerStatic_while ::
  "board \<Rightarrow> player \<Rightarrow> int \<Rightarrow> int \<Rightarrow> int \<Rightarrow> int \<Rightarrow> nat \<Rightarrow> (error + nat) option" where
  "checkWinnerStatic_while b pl dr dc r c count =
     (if r \<ge> 0 \<and> r < ROWS \<and> c \<ge> 0 \<and> c < COLS then
        (case readCell b r c of
           Inl e \<Rightarrow> Some (Inl e)
         | Inr v \<Rightarrow> if v = Value (Some pl)
                    then checkWinnerStatic_while b pl dr dc (r + dr) (c + dc) (count + 1)
                    else Some (Inr count))
      else Some (Inr count))"

declare checkWinnerStatic_while.simps [code]

fun checkWinnerStatic_direction ::
  "board \<Rightarrow> player \<Rightarrow> int \<Rightarrow> int \<Rightarrow> (int \<times> int) list \<Rightarrow> nat \<Rightarrow> (error + nat) option" where
  "checkWinnerStatic_direction b pl row col [] count = Some (Inr count)"
| "checkWinnerStatic_direction b pl row col ((dr, dc) # ds) count =
     (case checkWinnerStatic_while b pl dr dc (row + dr) (col + dc) count of
        None \<Rightarrow> None
      | Some (Inl e) \<Rightarrow> Some (Inl e)
      | Some (Inr count') \<Rightarrow> checkWinnerStatic_direction b pl row col ds count')"

fun checkWinnerStatic_directions ::
  "board \<Rightarrow> player \<Rightarrow> int \<Rightarrow> int \<Rightarrow> (int \<times> int) list list \<Rightarrow> (error + bool) option" where
  "checkWinnerStatic_directions b pl row col [] = Some (Inr False)"
| "checkWinnerStatic_directions b pl row col (direction # rest) =
     (case checkWinnerStatic_direction b pl row col direction 1 of
        None \<Rightarrow> None
      | Some (Inl e) \<Rightarrow> Some (Inl e)
      | Some (Inr count) \<Rightarrow>
          if count \<ge> 4 then Some (Inr True)
          else checkWinnerStatic_directions b pl row col rest)"

definition checkWinnerStatic :: "board \<Rightarrow> int \<Rightarrow> int \<Rightarrow> (error + bool) option" where
  "checkWinnerStatic b row col =
     (case readCell b row col of
        Inl e \<Rightarrow> Some (Inl e)
      | Inr Undefined \<Rightarrow> Some (Inr False)
      | Inr (Value None) \<Rightarrow> Some (Inr False)
      | Inr (Value (Some pl)) \<Rightarrow> checkWinnerStatic_directions b pl row col directions)"

section \<open>Bot strategy\<close>

text \<open>
  \<^verbatim>\<open>board.map(row => [...row])\<close>: a new array of new rows. On values the copy is the
  board itself; what the copy means for the caller's arrays is the subject of the
  store model further down.
\<close>

definition copyBoard :: "board \<Rightarrow> board" where
  "copyBoard b = map (\<lambda>row. row) b"

text \<open>
  The first two loops of \<open>getBotMove\<close> differ only in the token they place
  (\<open>botPlayer\<close>, then \<open>opponent\<close>):
  \<^verbatim>\<open>for (let col = 0; col < COLS; col++) {
    const testBoard = board.map(row => [...row]);
    const row = getLowestEmptyRow(testBoard, col);
    if (row !== -1) { testBoard[row][col] = token;
      if (checkWinnerStatic(testBoard, row, col)) return col; } }\<close>
  The result \<open>Some col\<close> is the early return, \<open>None\<close> the end of the loop.
\<close>

function getBotMove_scan :: "board \<Rightarrow> cell \<Rightarrow> int \<Rightarrow> (error + int option) option" where
  "getBotMove_scan b token col =
     (if col < COLS then
        (let testBoard = copyBoard b in
         case getLowestEmptyRow testBoard col of
           Inl e \<Rightarrow> Some (Inl e)
         | Inr row \<Rightarrow>
             if row \<noteq> - 1 then
               (case checkWinnerStatic (writeCell testBoard row col token) row col of
                  None \<Rightarrow> None
                | Some (Inl e) \<Rightarrow> Some (Inl e)
                | Some (Inr won) \<Rightarrow>
                    if won then Some (Inr (Some col))
                    else getBotMove_scan b token (col + 1))
             else getBotMove_scan b token (col + 1))
      else Some (Inr None))"
  by pat_completeness auto
termination
  by (relation "measure (\<lambda>(b, token, col). nat (COLS - col))") auto

definition centerCols :: "int list" where
  "centerCols = [3, 2, 4, 1, 5, 0, 6]"

text \<open>\<^verbatim>\<open>for (const col of centerCols) { if (getLowestEmptyRow(board, col) !== -1) return col; }\<close>\<close>

fun getBotMove_center :: "board \<Rightarrow> int list \<Rightarrow> error + int option" where
  "getBotMove_center b [] = Inr None"
| "getBotMove_center b (col # cols) =
     (case getLowestEmptyRow b col of
        Inl e \<Rightarrow> Inl e
      | Inr row \<Rightarrow> if row \<noteq> - 1 then Inr (Some col) else getBotMove_center b cols)"

text \<open>
  \<^verbatim>\<open>for (let col = 0; col < COLS; col++) {
    if (getLowestEmptyRow(board, col) !== -1) validCols.push(col); }\<close>
\<close>

function getBotMove_validCols :: "board \<Rightarrow> int \<Rightarrow> int list \<Rightarrow> error + int list" where
  "getBotMove_validCols b col validCols =
     (if col < COLS then
        (case getLowestEmptyRow b col of
           Inl e \<Rightarrow> Inl e
         | Inr row \<Rightarrow>
             if row \<noteq> - 1 then getBotMove_validCols b (col + 1) (validCols @ [col])
             else getBotMove_validCols b (col + 1) validCols)
      else Inr validCols)"
  by pat_completeness auto
termination
  by (relation "measure (\<lambda>(b, col, validCols). nat (COLS - col))") auto

text \<open>
  \<open>getBotMove\<close>. The parameter \<open>pick\<close> stands for the random draw: \<open>pick n\<close> is the
  value of \<^verbatim>\<open>Math.floor(Math.random() * n)\<close>. The returned column is \<open>Some col\<close>;
  \<open>None\<close> is \<open>undefined\<close>, which \<^verbatim>\<open>validCols[i]\<close> yields when \<open>i\<close> is not an index
  of \<open>validCols\<close>.
\<close>

definition getBotMove :: "(nat \<Rightarrow> nat) \<Rightarrow> board \<Rightarrow> cell \<Rightarrow> (error + int option) option" where
  "getBotMove pick b botPlayer =
     (let opponent = (if botPlayer = Some Red then Some Yellow else Some Red) in
      case getBotMove_scan b botPlayer 0 of
        None \<Rightarrow> None
      | Some (Inl e) \<Rightarrow> Some (Inl e)
      | Some (Inr (Some col)) \<Rightarrow> Some (Inr (Some col))
      | Some (Inr None) \<Rightarrow>
         (case getBotMove_scan b opponent 0 of
            None \<Rightarrow> None
          | Some (Inl e) \<Rightarrow> Some (Inl e)
          | Some (Inr (Some col)) \<Rightarrow> Some (Inr (Some col))
          | Some (Inr None) \<Rightarrow>
             (case getBotMove_center b centerCols of
                Inl e \<Rightarrow> Some (Inl e)
              | Inr (Some col) \<Rightarrow> Some (Inr (Some col))
              | Inr None \<Rightarrow>
                 (case getBotMove_validCols b 0 [] of
                    Inl e \<Rightarrow> Some (Inl e)
                  | Inr validCols \<Rightarrow>
                      Some (Inr (if pick (length validCols) < length validCols
                                 then Some (validCols ! pick (length validCols))
                                 else None))))))"

section \<open>Turn controller\<close>

text \<open>
  \<open>dropPiece\<close> runs in two parts. The click handler returns at once when the game has a
  winner, the bot is thinking or a piece is animating, and when the column has no
  empty row; otherwise it records the animating piece and starts a timer. The handler
  is created anew for every state, so it runs on the state \<open>gs\<close> it closes over. The
  result is the new state and the timer's closure, if one was started: the copied
  board, the landing row, the column and the state \<open>gs\<close>.
\<close>

record dropTimer =
  newBoard :: board
  dropRow :: int
  dropCol :: int
  captured :: gameState

definition dropPiece :: "gameState \<Rightarrow> int \<Rightarrow> error + gameState \<times> dropTimer option" where
  "dropPiece gs col =
     (if winner gs \<noteq> None \<or> isBotThinking gs \<or> animatingPiece gs \<noteq> None then Inr (gs, None)
      else
        (let nb = copyBoard (board gs) in
         case getLowestEmptyRow nb col of
           Inl e \<Rightarrow> Inl e
         | Inr row \<Rightarrow>
             if row = - 1 then Inr (gs, None)
             else Inr (gs\<lparr>animatingPiece := Some (row, col)\<rparr>,
                       Some \<lparr>newBoard = nb, dropRow = row, dropCol = col, captured = gs\<rparr>)))"

text \<open>\<^verbatim>\<open>newBoard.every(r => r.every(c => c !== null))\<close>\<close>

definition boardFull :: "board \<Rightarrow> bool" where
  "boardFull b = list_all (\<lambda>r. list_all (\<lambda>c. c \<noteq> None) r) b"

text \<open>
  The timer's callback, 600 ms later, applied to the state \<open>prev\<close> of that moment:
  it places the token of the captured state on the copied board, looks for a line
  and commits.
\<close>

definition dropPiece_timeout :: "dropTimer \<Rightarrow> gameState \<Rightarrow> (error + gameState) option" where
  "dropPiece_timeout t prev =
     (let gs = captured t;
          row = dropRow t;
          col = dropCol t;
          nb = writeCell (newBoard t) row col (currentPlayer gs) in
      case checkWinner nb row col of
        None \<Rightarrow> None
      | Some (Inl e) \<Rightarrow> Some (Inl e)
      | Some (Inr line) \<Rightarrow>
          (let nextPlayer = (if currentPlayer gs = Some Red then Some Yellow else Some Red);
               isGameOver = (line \<noteq> None \<or> boardFull nb) in
           Some (Inr (prev\<lparr>board := nb,
                           currentPlayer := nextPlayer,
                           winner := (if line \<noteq> None then currentPlayer gs else None),
                           winningLine := line,
                           animatingPiece := None,
                           isBotThinking := (gameMode prev = SinglePlayer \<and> \<not> isGameOver
                                             \<and> nextPlayer = Some Yellow)\<rparr>))))"

text \<open>A whole move: the click, then the timer firing with nothing else in between.\<close>

definition dropPiece_settled :: "gameState \<Rightarrow> int \<Rightarrow> (error + gameState) option" where
  "dropPiece_settled gs col =
     (case dropPiece gs col of
        Inl e \<Rightarrow> Some (Inl e)
      | Inr (gs', None) \<Rightarrow> Some (Inr gs')
      | Inr (gs', Some t) \<Rightarrow> dropPiece_timeout t gs')"

text \<open>\<^verbatim>\<open>setGameState(prev => ({ ...prev, board: initializeBoard(), ... }))\<close>\<close>

definition resetGame :: "gameState \<Rightarrow> gameState" where
  "resetGame prev =
     prev\<lparr>board := initializeBoard,
          currentPlayer := Some Red,
          winner := None,
          winningLine := None,
          isBotThinking := False,
          animatingPiece := None\<rparr>"

section \<open>Notions used to state the properties\<close>

text \<open>The condition of the two \<open>while\<close> loops: the cell is on the grid and holds the token.\<close>

definition matches :: "board \<Rightarrow> player \<Rightarrow> int \<Rightarrow> int \<Rightarrow> bool" where
  "matches b pl r c =
     (0 \<le> r \<and> r < ROWS \<and> 0 \<le> c \<and> c < COLS \<and> readCell b r c = Inr (Value (Some pl)))"

text \<open>
  A step away from a grid cell leaves fewer cells ahead in that direction; this
  number bounds the iterations of the \<open>while\<close> loops for every step but \<open>(0, 0)\<close>.
\<close>

definition cells_ahead :: "int \<Rightarrow> int \<Rightarrow> int \<Rightarrow> int \<Rightarrow> nat" where
  "cells_ahead dr dc r c =
     (if dr > 0 then nat (ROWS - r)
      else if dr < 0 then nat (r + 1)
      else if dc > 0 then nat (COLS - c)
      else nat (c + 1))"

text \<open>
  The four axes of the grid, and what it means that four collinear, contiguous cells
  through \<open>(row, col)\<close> hold the same token: on some axis, some window of four
  consecutive positions that contains \<open>(row, col)\<close> lies on the grid and holds one
  token throughout. The window starts \<open>s\<close> steps from \<open>(row, col)\<close>, with \<open>s\<close> from -3
  to 0, and covers the steps \<open>s\<close> to \<open>s + 3\<close>.
\<close>

definition axes :: "(int \<times> int) list" where
  "axes = [(0, 1), (1, 0), (1, 1), (1, - 1)]"

definition fourOnAxis :: "board \<Rightarrow> player \<Rightarrow> int \<Rightarrow> int \<Rightarrow> int \<times> int \<Rightarrow> bool" where
  "fourOnAxis b pl row col d =
     (\<exists>s\<in>set [- 3, - 2, - 1, 0]. \<forall>k\<in>set [0, 1, 2, 3].
         matches b pl (row + (s + k) * fst d) (col + (s + k) * snd d))"

definition fourInLine :: "board \<Rightarrow> int \<Rightarrow> int \<Rightarrow> bool" where
  "fourInLine b row col = (\<exists>pl\<in>{Red, Yellow}. \<exists>d\<in>set axes. fourOnAxis b pl row col d)"

text \<open>
  The coordinates of a line through \<open>(row, col)\<close> on the axis \<open>d\<close>, in the order the
  detector lists them: the cell itself, \<open>n1\<close> cells in the direction \<open>d\<close>, then \<open>n2\<close>
  cells in the opposite direction.
\<close>

definition axisLine :: "int \<Rightarrow> int \<Rightarrow> int \<times> int \<Rightarrow> nat \<Rightarrow> nat \<Rightarrow> coord list" where
  "axisLine row col d n1 n2 =
     (row, col) #
     map (\<lambda>k. (row + (1 + int k) * fst d, col + (1 + int k) * snd d)) [0..<n1] @
     map (\<lambda>k. (row - (1 + int k) * fst d, col - (1 + int k) * snd d)) [0..<n2]"

text \<open>
  Dropping a token in column \<open>col\<close>: the token lands at \<open>row\<close> when that cell is the
  lowest empty cell of the column (every row below it, that is with a larger index,
  is occupied). The drop is legal when the column is one of 0..6 and has a landing
  row; it is a winning drop for a token when the token, placed at the landing row,
  is in a line of four.
\<close>

definition rowIndices :: "int list" where
  "rowIndices = [0, 1, 2, 3, 4, 5]"

definition landsAt :: "board \<Rightarrow> int \<Rightarrow> int \<Rightarrow> bool" where
  "landsAt b col row =
     (0 \<le> col \<and> col < COLS \<and> 0 \<le> row \<and> row < ROWS \<and>
      readCell b row col = Inr (Value None) \<and>
      list_all (\<lambda>k. k \<le> row \<or> readCell b k col \<noteq> Inr (Value None)) rowIndices)"

definition legalDrop :: "board \<Rightarrow> int \<Rightarrow> bool" where
  "legalDrop b col = list_ex (\<lambda>row. landsAt b col row) rowIndices"

definition winningDrop :: "board \<Rightarrow> cell \<Rightarrow> int \<Rightarrow> bool" where
  "winningDrop b token col =
     list_ex (\<lambda>row. landsAt b col row \<and> fourInLine (writeCell b row col token) row col) rowIndices"

text \<open>The other player.\<close>

fun other :: "player \<Rightarrow> player" where
  "other Red = Yellow"
| "other Yellow = Red"

definition colIndices :: "int list" where
  "colIndices = [0, 1, 2, 3, 4, 5, 6]"

section \<open>\<open>getBotMove\<close> on a store of arrays\<close>

text \<open>
  In the source a board is an array of references to row arrays, and
  \<^verbatim>\<open>testBoard[row][col] = token\<close> mutates a row array in place. Whether the caller's
  board survives \<open>getBotMove\<close> depends on the copy \<^verbatim>\<open>board.map(row => [...row])\<close>
  making new row arrays. The store maps the address of a row array to its cells;
  \<open>nextAddr\<close> is the next unused address. A board is the list of the addresses of its
  rows (the outer array is never written by \<open>getBotMove\<close>, so it is kept as a value).
\<close>

type_synonym addr = nat

record store =
  rowsAt :: "addr \<Rightarrow> cell list option"
  nextAddr :: addr

type_synonym boardRef = "addr list"

text \<open>The row array at an address, and the board a reference denotes.\<close>

definition loadRow :: "store \<Rightarrow> addr \<Rightarrow> cell list" where
  "loadRow s a = (case rowsAt s a of Some row \<Rightarrow> row | None \<Rightarrow> [])"

definition loadBoard :: "store \<Rightarrow> boardRef \<Rightarrow> board" where
  "loadBoard s brd = map (loadRow s) brd"

text \<open>\<^verbatim>\<open>[...row]\<close>: a new array with the cells of \<open>row\<close>.\<close>

definition copyRow :: "store \<Rightarrow> addr \<Rightarrow> addr \<times> store" where
  "copyRow s a =
     (nextAddr s, s\<lparr>rowsAt := (rowsAt s)(nextAddr s \<mapsto> loadRow s a), nextAddr := Suc (nextAddr s)\<rparr>)"

text \<open>\<^verbatim>\<open>board.map(row => [...row])\<close>: a new outer array of new rows.\<close>

fun copyBoardH :: "store \<Rightarrow> boardRef \<Rightarrow> boardRef \<times> store" where
  "copyBoardH s [] = ([], s)"
| "copyBoardH s (a # as) =
     (let (a', s') = copyRow s a;
          (as', s'') = copyBoardH s' as
      in (a' # as', s''))"

text \<open>\<^verbatim>\<open>testBoard[row][col] = v\<close>: the row array at \<open>testBoard[row]\<close> is updated in place.\<close>

definition storeCell :: "store \<Rightarrow> boardRef \<Rightarrow> int \<Rightarrow> int \<Rightarrow> cell \<Rightarrow> store" where
  "storeCell s brd row col v =
     s\<lparr>rowsAt := (rowsAt s)(brd ! nat row \<mapsto> (loadRow s (brd ! nat row))[nat col := v])\<rparr>"

text \<open>
  The first two loops of \<open>getBotMove\<close> on the store. \<open>getLowestEmptyRow\<close> and
  \<open>checkWinnerStatic\<close> only read, so they run on the board the test reference denotes
  at that moment. The store is returned with the result.
\<close>

function getBotMove_scanH ::
  "store \<Rightarrow> boardRef \<Rightarrow> cell \<Rightarrow> int \<Rightarrow> (error + int option) option \<times> store" where
  "getBotMove_scanH s brd token col =
     (if col < COLS then
        (let (testBoard, s1) = copyBoardH s brd in
         case getLowestEmptyRow (loadBoard s1 testBoard) col of
           Inl e \<Rightarrow> (Some (Inl e), s1)
         | Inr row \<Rightarrow>
             if row \<noteq> - 1 then
               (let s2 = storeCell s1 testBoard row col token in
                case checkWinnerStatic (loadBoard s2 testBoard) row col of
                  None \<Rightarrow> (None, s2)
                | Some (Inl e) \<Rightarrow> (Some (Inl e), s2)
                | Some (Inr won) \<Rightarrow>
                    if won then (Some (Inr (Some col)), s2)
                    else getBotMove_scanH s2 brd token (col + 1))
             else getBotMove_scanH s1 brd token (col + 1))
      else (Some (Inr None), s))"
  by pat_completeness auto
termination
  by (relation "measure (\<lambda>(s, brd, token, col). nat (COLS - col))") auto

text \<open>The last two tiers read the caller's board only.\<close>

definition getBotMoveH ::
  "(nat \<Rightarrow> nat) \<Rightarrow> store \<Rightarrow> boardRef \<Rightarrow> cell \<Rightarrow> (error + int option) option \<times> store" where
  "getBotMoveH pick s brd botPlayer =
     (let opponent = (if botPlayer = Some Red then Some Yellow else Some Red) in
      case getBotMove_scanH s brd botPlayer 0 of
        (None, s1) \<Rightarrow> (None, s1)
      | (Some (Inl e), s1) \<Rightarrow> (Some (Inl e), s1)
      | (Some (Inr (Some col)), s1) \<Rightarrow> (Some (Inr (Some col)), s1)
      | (Some (Inr None), s1) \<Rightarrow>
         (case getBotMove_scanH s1 brd opponent 0 of
            (None, s2) \<Rightarrow> (None, s2)
          | (Some (Inl e), s2) \<Rightarrow> (Some (Inl e), s2)
          | (Some (Inr (Some col)), s2) \<Rightarrow> (Some (Inr (Some col)), s2)
          | (Some (Inr None), s2) \<Rightarrow>
             (case getBotMove_center (loadBoard s2 brd) centerCols of
                Inl e \<Rightarrow> (Some (Inl e), s2)
              | Inr (Some col) \<Rightarrow> (Some (Inr (Some col)), s2)
              | Inr None \<Rightarrow>
                 (case getBotMove_validCols (loadBoard s2 brd) 0 [] of
                    Inl e \<Rightarrow> (Some (Inl e), s2)
                  | Inr validCols \<Rightarrow>
                      (Some (Inr (if pick (length validCols) < length validCols
                                  then Some (validCols ! pick (length validCols))
                                  else None)), s2)))))"

text \<open>A store that holds the rows of a board, row by row from address 0.\<close>

definition storeOf :: "board \<Rightarrow> store" where
  "storeOf b = \<lparr>rowsAt = (\<lambda>a. if a < length b then Some (b ! a) else None), nextAddr = length b\<rparr>"

section \<open>Example positions\<close>

text \<open>Boards and states used to run the model: rows are listed top (row 0) to bottom (row 5).\<close>

definition E :: cell where
  "E = None"

definition R :: cell where
  "R = Some Red"

definition Y :: cell where
  "Y = Some Yellow"

text \<open>Column 6 is full, column 3 holds three red tokens.\<close>

definition board_stack :: board where
  "board_stack =
     [[E, E, E, E, E, E, R],
      [E, E, E, E, E, E, Y],
      [E, E, E, E, E, E, R],
      [E, E, E, R, E, E, Y],
      [Y, E, E, R, E, E, R],
      [Y, Y, E, R, E, E, Y]]"

text \<open>A full board without any line of four.\<close>

definition board_drawn :: board where
  "board_drawn =
     [[R, R, Y, Y, R, R, Y],
      [Y, Y, R, R, Y, Y, R],
      [R, R, Y, Y, R, R, Y],
      [Y, Y, R, R, Y, Y, R],
      [R, R, Y, Y, R, R, Y],
      [Y, Y, R, R, Y, Y, R]]"

text \<open>Red has four in column 3.\<close>

definition board_red_won :: board where
  "board_red_won =
     [[E, E, E, E, E, E, E],
      [E, E, E, E, E, E, E],
      [E, E, E, R, E, E, E],
      [E, E, E, R, E, E, E],
      [Y, E, E, R, E, E, E],
      [Y, Y, E, R, E, E, E]]"

definition state_red_won :: gameState where
  "state_red_won =
     \<lparr>board = board_red_won, currentPlayer = Y, winner = R,
      winningLine = Some [(2, 3), (3, 3), (4, 3), (5, 3)], gameMode = SinglePlayer,
      isBotThinking = False, animatingPiece = None\<rparr>"

definition state_drawn :: gameState where
  "state_drawn =
     \<lparr>board = board_drawn, currentPlayer = R, winner = None, winningLine = None,
      gameMode = TwoPlayer, isBotThinking = False, animatingPiece = None\<rparr>"

text \<open>Yellow has three in the bottom row and wins in column 3; so would red in column 6.\<close>

definition board_yellow_three :: board where
  "board_yellow_three =
     [[E, E, E, E, E, E, E],
      [E, E, E, E, E, E, E],
      [E, E, E, E, E, E, E],
      [E, E, E, E, E, E, R],
      [E, E, E, E, E, E, R],
      [Y, Y, Y, E, E, E, R]]"

text \<open>Column 3 is full and nobody has a winning drop.\<close>

definition board_center_full :: board where
  "board_center_full =
     [[E, E, E, Y, E, E, E],
      [E, E, E, R, E, E, E],
      [E, E, E, Y, E, E, E],
      [E, E, E, R, E, E, E],
      [E, E, E, Y, E, E, E],
      [E, E, E, R, E, E, E]]"

text \<open>
  Red to move with three red tokens stacked in column 3, after three moves of each
  player.
\<close>

definition board_red_three :: board where
  "board_red_three =
     [[E, E, E, E, E, E, E],
      [E, E, E, E, E, E, E],
      [E, E, E, E, E, E, E],
      [E, E, E, R, E, E, E],
      [Y, E, E, R, E, E, E],
      [Y, Y, E, R, E, E, E]]"

definition state_red_three :: gameState where
  "state_red_three =
     \<lparr>board = board_red_three, currentPlayer = R, winner = None, winningLine = None,
      gameMode = SinglePlayer, isBotThinking = False, animatingPiece = None\<rparr>"

text \<open>
  Red to move with three red tokens stacked in column 3 and three more in row 2, to the
  left of the empty cell \<open>(2, 3)\<close>; no line of four is on the board.
\<close>

definition board_red_row :: board where
  "board_red_row =
     [[E, E, E, E, E, E, E],
      [E, E, E, E, E, E, E],
      [R, R, R, E, E, E, E],
      [Y, Y, Y, R, E, E, E],
      [R, Y, R, R, E, Y, E],
      [Y, R, Y, R, E, Y, Y]]"

definition state_red_row :: gameState where
  "state_red_row =
     \<lparr>board = board_red_row, currentPlayer = R, winner = None, winningLine = None,
      gameMode = TwoPlayer, isBotThinking = False, animatingPiece = None\<rparr>"

text \<open>All coordinates of the grid, for checks over a whole board.\<close>

definition allCoords :: "coord list" where
  "allCoords = concat (map (\<lambda>r. map (\<lambda>c. (r, c)) colIndices) rowIndices)"

text \<open>No cell of the board is in a line of four.\<close>

definition noLine :: "board \<Rightarrow> bool" where
  "noLine b = list_all (\<lambda>(r, c). \<not> fourInLine b r c) allCoords"

section \<open>Properties of the move resolver\<close>

declare getLowestEmptyRow_loop.simps [simp del]

lemma readCell_in_rows:
  "0 \<le> row \<Longrightarrow> row < int (length b) \<Longrightarrow> \<exists>v. readCell b row col = Inr v"
  by (simp add: readCell_def)

lemma getLowestEmptyRow_loop_spec:
  "row < int (length b) \<Longrightarrow>
   \<exists>r. getLowestEmptyRow_loop b col row = Inr r \<and>
     ((r = - 1 \<and> (\<forall>k. 0 \<le> k \<and> k \<le> row \<longrightarrow> readCell b k col \<noteq> Inr (Value None))) \<or>
      (0 \<le> r \<and> r \<le> row \<and> readCell b r col = Inr (Value None) \<and>
       (\<forall>k. r < k \<and> k \<le> row \<longrightarrow> readCell b k col \<noteq> Inr (Value None))))"
proof (induction b col row rule: getLowestEmptyRow_loop.induct)
  case (1 b col row)
  show ?case
  proof (cases "row \<ge> 0")
    case False
    then show ?thesis by (auto simp: getLowestEmptyRow_loop.simps)
  next
    case True
    with 1(2) obtain v where v: "readCell b row col = Inr v"
      using readCell_in_rows by blast
    show ?thesis
    proof (cases "v = Value None")
      case True
      with v \<open>row \<ge> 0\<close> show ?thesis
        by (subst getLowestEmptyRow_loop.simps) auto
    next
      case False
      from 1(1)[OF True v False] 1(2)
      obtain r where r: "getLowestEmptyRow_loop b col (row - 1) = Inr r"
        and d: "(r = - 1 \<and> (\<forall>k. 0 \<le> k \<and> k \<le> row - 1 \<longrightarrow> readCell b k col \<noteq> Inr (Value None))) \<or>
      (0 \<le> r \<and> r \<le> row - 1 \<and> readCell b r col = Inr (Value None) \<and>
       (\<forall>k. r < k \<and> k \<le> row - 1 \<longrightarrow> readCell b k col \<noteq> Inr (Value None)))"
        by auto
      have step: "\<And>k. k \<le> row \<Longrightarrow> \<not> k \<le> row - 1 \<Longrightarrow> k = row" by arith
      have eq: "getLowestEmptyRow_loop b col row = Inr r"
        using True v False r by (subst getLowestEmptyRow_loop.simps) simp
      from d show ?thesis
      proof
        assume a: "r = - 1 \<and> (\<forall>k. 0 \<le> k \<and> k \<le> row - 1 \<longrightarrow> readCell b k col \<noteq> Inr (Value None))"
        have "\<forall>k. 0 \<le> k \<and> k \<le> row \<longrightarrow> readCell b k col \<noteq> Inr (Value None)"
          using a v False step by (metis Inr_inject)
        with a eq show ?thesis by simp
      next
        assume a: "0 \<le> r \<and> r \<le> row - 1 \<and> readCell b r col = Inr (Value None) \<and>
       (\<forall>k. r < k \<and> k \<le> row - 1 \<longrightarrow> readCell b k col \<noteq> Inr (Value None))"
        have "\<forall>k. r < k \<and> k \<le> row \<longrightarrow> readCell b k col \<noteq> Inr (Value None)"
          using a v False step by (metis Inr_inject)
        with a eq show ?thesis by simp
      qed
    qed
  qed
qed

text \<open>The result of the scan on a board with at least \<open>ROWS\<close> rows.\<close>

lemma getLowestEmptyRow_cases:
  assumes "ROWS \<le> int (length b)"
  shows "(getLowestEmptyRow b col = Inr (- 1) \<and>
          (\<forall>k. 0 \<le> k \<and> k < ROWS \<longrightarrow> readCell b k col \<noteq> Inr (Value None))) \<or>
         (\<exists>r. getLowestEmptyRow b col = Inr r \<and> 0 \<le> r \<and> r < ROWS \<and>
              readCell b r col = Inr (Value None) \<and>
              (\<forall>k. r < k \<and> k < ROWS \<longrightarrow> readCell b k col \<noteq> Inr (Value None)))"
proof -
  have "ROWS - 1 < int (length b)" using assms by simp
  from getLowestEmptyRow_loop_spec[OF this, of col]
  show ?thesis
    unfolding getLowestEmptyRow_def [symmetric] by auto
qed

lemma wf_board_row:
  assumes "wf_board b" "0 \<le> r" "r < ROWS"
  shows "nat r < length b" "int (length (b ! nat r)) = COLS"
proof -
  show "nat r < length b" using assms by (auto simp: wf_board_def)
  then show "int (length (b ! nat r)) = COLS"
    using assms(1) by (simp add: wf_board_def list_all_length)
qed

lemma readCell_undefined_col:
  "wf_board b \<Longrightarrow> 0 \<le> k \<Longrightarrow> k < ROWS \<Longrightarrow> col < 0 \<or> COLS \<le> col \<Longrightarrow> readCell b k col = Inr Undefined"
  by (auto simp: wf_board_def readCell_def list_all_length)

lemma readCell_wf:
  "wf_board b \<Longrightarrow> 0 \<le> r \<Longrightarrow> r < ROWS \<Longrightarrow> 0 \<le> c \<Longrightarrow> c < COLS \<Longrightarrow>
   readCell b r c = Inr (Value (b ! nat r ! nat c))"
  by (auto simp: wf_board_def readCell_def list_all_length)

text \<open>
  Claim C2. On a board of the game, for every column index \<open>col\<close> (any integer),
  \<open>getLowestEmptyRow\<close> returns a row index and does not throw. When some row of 0..5
  holds \<open>null\<close> in column \<open>col\<close>, the result is the largest such row: the scan starts
  at row 5 and stops at the first empty cell. When no row does, the result is \<open>-1\<close>;
  that is the case of a full column and of every column index outside 0..6.
\<close>

theorem getLowestEmptyRow_spec:
  assumes "wf_board b"
  shows "\<exists>r. getLowestEmptyRow b col = Inr r \<and>
     (if \<exists>k. 0 \<le> k \<and> k < ROWS \<and> readCell b k col = Inr (Value None)
      then 0 \<le> r \<and> r < ROWS \<and> readCell b r col = Inr (Value None) \<and>
           (\<forall>k. r < k \<and> k < ROWS \<longrightarrow> readCell b k col \<noteq> Inr (Value None))
      else r = - 1) \<and>
     (col < 0 \<or> COLS \<le> col \<longrightarrow> r = - 1)"
proof -
  have len: "ROWS \<le> int (length b)" using assms by (simp add: wf_board_def)
  consider (full) "getLowestEmptyRow b col = Inr (- 1)"
      "\<forall>k. 0 \<le> k \<and> k < ROWS \<longrightarrow> readCell b k col \<noteq> Inr (Value None)"
    | (found) r where "getLowestEmptyRow b col = Inr r" "0 \<le> r" "r < ROWS"
      "readCell b r col = Inr (Value None)"
      "\<forall>k. r < k \<and> k < ROWS \<longrightarrow> readCell b k col \<noteq> Inr (Value None)"
    using getLowestEmptyRow_cases[OF len, of col] by blast
  then show ?thesis
  proof cases
    case full
    then show ?thesis by auto
  next
    case (found r)
    have "\<not> (col < 0 \<or> COLS \<le> col)"
      using readCell_undefined_col[OF assms found(2,3), of col] found(4) by auto
    with found show ?thesis by auto
  qed
qed

theorem getLowestEmptyRow_spec_witness:
  "wf_board board_stack \<and> getLowestEmptyRow board_stack 3 = Inr 2 \<and>
   getLowestEmptyRow board_stack 6 = Inr (- 1) \<and> getLowestEmptyRow board_stack 7 = Inr (- 1)"
proof -
  have wf: "wf_board board_stack" by code_simp
  have a: "getLowestEmptyRow board_stack 3 = Inr 2" by code_simp
  have b: "getLowestEmptyRow board_stack 6 = Inr (- 1)" by code_simp
  from getLowestEmptyRow_spec[OF wf, of 7] have c: "getLowestEmptyRow board_stack 7 = Inr (- 1)"
    by (auto simp: COLS_def)
  from wf a b c show ?thesis by simp
qed

section \<open>Properties of the turn controller\<close>

text \<open>
  Claim C7. For every game state, \<open>resetGame\<close> gives a state whose board is six rows of
  seven empty cells, whose current player is red, whose winner and winning line are
  cleared, with no bot move or animation pending, and whose game mode is the one the
  state had before.
\<close>

theorem resetGame_spec:
  "board (resetGame gs) = replicate 6 (replicate 7 None) \<and>
   currentPlayer (resetGame gs) = Some Red \<and>
   winner (resetGame gs) = None \<and>
   winningLine (resetGame gs) = None \<and>
   isBotThinking (resetGame gs) = False \<and>
   animatingPiece (resetGame gs) = None \<and>
   gameMode (resetGame gs) = gameMode gs"
  by (simp add: resetGame_def initializeBoard_def ROWS_def COLS_def)

theorem resetGame_spec_witness:
  "board (resetGame state_red_won) = replicate 6 (replicate 7 None) \<and>
   winner (resetGame state_red_won) = None \<and>
   gameMode (resetGame state_red_won) = SinglePlayer"
  using resetGame_spec[of state_red_won] by (simp add: state_red_won_def)

lemma copyBoard_id [simp]: "copyBoard b = b"
  by (simp add: copyBoard_def)

lemma getLowestEmptyRow_full:
  assumes "wf_board b" "boardFull b"
  shows "getLowestEmptyRow b col = Inr (- 1)"
proof -
  have len: "ROWS \<le> int (length b)" using assms by (simp add: wf_board_def)
  consider (full) "getLowestEmptyRow b col = Inr (- 1)"
    | (found) r where "getLowestEmptyRow b col = Inr r" "0 \<le> r" "r < ROWS"
      "readCell b r col = Inr (Value None)"
    using getLowestEmptyRow_cases[OF len, of col] by blast
  then show ?thesis
  proof cases
    case full
    then show ?thesis by simp
  next
    case (found r)
    have "\<not> (col < 0 \<or> COLS \<le> col)"
      using readCell_undefined_col[OF assms(1) found(2,3), of col] found(4) by auto
    then have "readCell b r col = Inr (Value (b ! nat r ! nat col))"
      using readCell_wf[OF assms(1) found(2,3)] by simp
    with found(4) have "b ! nat r ! nat col = None" by simp
    moreover have "nat r < length b" "nat col < length (b ! nat r)"
      using wf_board_row[OF assms(1) found(2,3)] \<open>\<not> (col < 0 \<or> COLS \<le> col)\<close>
      by auto
    ultimately have False
      using assms(2) by (fastforce simp: boardFull_def list_all_length)
    then show ?thesis ..
  qed
qed

text \<open>
  Claim C6. Once a winner is recorded, or the board of the game is full, \<open>dropPiece\<close>
  changes nothing for any column: the click handler returns the state it was given
  and starts no timer, so board, current player, winner and winning line stay as
  they were.
\<close>

theorem dropPiece_finished:
  assumes "winner gs \<noteq> None \<or> (wf_board (board gs) \<and> boardFull (board gs))"
  shows "dropPiece gs col = Inr (gs, None) \<and> dropPiece_settled gs col = Some (Inr gs)"
proof -
  have "dropPiece gs col = Inr (gs, None)"
    using assms by (auto simp: dropPiece_def getLowestEmptyRow_full)
  then show ?thesis by (simp add: dropPiece_settled_def)
qed

theorem dropPiece_finished_witness:
  "winner state_red_won \<noteq> None \<and>
   dropPiece state_red_won 0 = Inr (state_red_won, None) \<and>
   wf_board (board state_drawn) \<and> boardFull (board state_drawn) \<and> winner state_drawn = None \<and>
   dropPiece state_drawn 3 = Inr (state_drawn, None) \<and>
   dropPiece_settled state_drawn 3 = Some (Inr state_drawn)"
proof -
  have w: "winner state_red_won \<noteq> None"
    by (simp add: state_red_won_def R_def)
  have wf: "wf_board (board state_drawn)" by code_simp
  have full: "boardFull (board state_drawn)" by code_simp
  have nw: "winner state_drawn = None" by (simp add: state_drawn_def)
  show ?thesis
    using w wf full nw dropPiece_finished[of state_red_won 0] dropPiece_finished[of state_drawn 3]
    by simp
qed

section \<open>Properties of the win detector\<close>

subsection \<open>The \<open>while\<close> loops\<close>

lemma cells_ahead_step:
  assumes "(dr, dc) \<noteq> (0, 0)" "0 \<le> r" "r < ROWS" "0 \<le> c" "c < COLS"
  shows "cells_ahead dr dc (r + dr) (c + dc) < cells_ahead dr dc r c"
  using assms by (auto simp: cells_ahead_def)

lemma checkWinner_while_run:
  assumes "ROWS \<le> int (length b)" "(dr, dc) \<noteq> (0, 0)"
  shows "\<exists>n. checkWinner_while b pl dr dc r c line =
               Some (Inr (line @ map (\<lambda>k. (r + int k * dr, c + int k * dc)) [0..<n])) \<and>
             (\<forall>k<n. matches b pl (r + int k * dr) (c + int k * dc)) \<and>
             \<not> matches b pl (r + int n * dr) (c + int n * dc)"
proof (induction "cells_ahead dr dc r c" arbitrary: r c line rule: less_induct)
  case less
  show ?case
  proof (cases "matches b pl r c")
    case False
    have "checkWinner_while b pl dr dc r c line = Some (Inr line)"
    proof (cases "0 \<le> r \<and> r < ROWS \<and> 0 \<le> c \<and> c < COLS")
      case True
      then obtain v where v: "readCell b r c = Inr v"
        using readCell_in_rows[of r b c] assms(1) by auto
      with True False have "v \<noteq> Value (Some pl)" by (auto simp: matches_def)
      with True v show ?thesis by (subst checkWinner_while.simps) simp
    next
      case False
      then show ?thesis by (subst checkWinner_while.simps) auto
    qed
    with False show ?thesis by (intro exI[of _ 0]) simp
  next
    case True
    then have rng: "0 \<le> r" "r < ROWS" "0 \<le> c" "c < COLS"
      and rd: "readCell b r c = Inr (Value (Some pl))"
      by (auto simp: matches_def)
    have step: "checkWinner_while b pl dr dc r c line =
                checkWinner_while b pl dr dc (r + dr) (c + dc) (line @ [(r, c)])"
      using rng rd by (subst checkWinner_while.simps) simp
    from less[OF cells_ahead_step[OF assms(2) rng], of "line @ [(r, c)]"]
    obtain n where n: "checkWinner_while b pl dr dc (r + dr) (c + dc) (line @ [(r, c)]) =
        Some (Inr ((line @ [(r, c)]) @ map (\<lambda>k. (r + dr + int k * dr, c + dc + int k * dc)) [0..<n]))"
      and all: "\<forall>k<n. matches b pl (r + dr + int k * dr) (c + dc + int k * dc)"
      and stop: "\<not> matches b pl (r + dr + int n * dr) (c + dc + int n * dc)"
      by blast
    have shift: "r + dr + int k * dr = r + int (Suc k) * dr" "c + dc + int k * dc = c + int (Suc k) * dc" for k
      by (simp_all add: algebra_simps)
    have "checkWinner_while b pl dr dc r c line =
            Some (Inr (line @ map (\<lambda>k. (r + int k * dr, c + int k * dc)) [0..<Suc n]))"
      unfolding step n shift by (simp add: map_upt_Suc del: upt_Suc)
    moreover have "\<forall>k<Suc n. matches b pl (r + int k * dr) (c + int k * dc)"
    proof (intro allI impI)
      fix k assume "k < Suc n"
      show "matches b pl (r + int k * dr) (c + int k * dc)"
      proof (cases k)
        case 0
        with True show ?thesis by simp
      next
        case (Suc j)
        with \<open>k < Suc n\<close> all have "matches b pl (r + dr + int j * dr) (c + dc + int j * dc)" by simp
        then show ?thesis unfolding shift Suc .
      qed
    qed
    moreover have "\<not> matches b pl (r + int (Suc n) * dr) (c + int (Suc n) * dc)"
      using stop unfolding shift .
    ultimately show ?thesis by blast
  qed
qed

lemma checkWinnerStatic_while_length:
  assumes "(dr, dc) \<noteq> (0, 0)"
  shows "checkWinnerStatic_while b pl dr dc r c (length line) =
         map_option (map_sum id length) (checkWinner_while b pl dr dc r c line)"
proof (induction "cells_ahead dr dc r c" arbitrary: r c line rule: less_induct)
  case less
  show ?case
  proof (cases "0 \<le> r \<and> r < ROWS \<and> 0 \<le> c \<and> c < COLS")
    case False
    then show ?thesis
      by (subst checkWinnerStatic_while.simps, subst checkWinner_while.simps) auto
  next
    case True
    then have rng: "0 \<le> r" "r < ROWS" "0 \<le> c" "c < COLS" by auto
    show ?thesis
    proof (cases "readCell b r c = Inr (Value (Some pl))")
      case False
      with True show ?thesis
        by (subst checkWinnerStatic_while.simps, subst checkWinner_while.simps)
           (auto split: sum.splits)
    next
      case rd: True
      have "checkWinnerStatic_while b pl dr dc r c (length line) =
            checkWinnerStatic_while b pl dr dc (r + dr) (c + dc) (length (line @ [(r, c)]))"
        using rng rd by (subst checkWinnerStatic_while.simps) simp
      also have "\<dots> = map_option (map_sum id length)
           (checkWinner_while b pl dr dc (r + dr) (c + dc) (line @ [(r, c)]))"
        by (rule less[OF cells_ahead_step[OF assms rng]])
      also have "checkWinner_while b pl dr dc (r + dr) (c + dc) (line @ [(r, c)]) =
           checkWinner_while b pl dr dc r c line"
        using rng rd by (subst (2) checkWinner_while.simps) simp
      finally show ?thesis .
    qed
  qed
qed

subsection \<open>Both detectors run the same loops\<close>

lemma checkWinner_while_total:
  assumes "(dr, dc) \<noteq> (0, 0)"
  shows "\<exists>res. checkWinner_while b pl dr dc r c line = Some res"
proof (induction "cells_ahead dr dc r c" arbitrary: r c line rule: less_induct)
  case less
  show ?case
  proof (cases "0 \<le> r \<and> r < ROWS \<and> 0 \<le> c \<and> c < COLS \<and> readCell b r c = Inr (Value (Some pl))")
    case False
    then show ?thesis
      by (subst checkWinner_while.simps) (auto split: sum.splits)
  next
    case True
    then have rng: "0 \<le> r" "r < ROWS" "0 \<le> c" "c < COLS" by auto
    from less[OF cells_ahead_step[OF assms rng], of "line @ [(r, c)]"] True
    show ?thesis by (subst checkWinner_while.simps) simp
  qed
qed

lemma checkWinnerStatic_direction_length:
  assumes "\<forall>d\<in>set ds. d \<noteq> (0, 0)"
  shows "checkWinnerStatic_direction b pl row col ds (length line) =
         map_option (map_sum id length) (checkWinner_direction b pl row col ds line)"
  using assms
proof (induction ds arbitrary: line)
  case Nil
  show ?case by simp
next
  case (Cons d ds)
  obtain dr dc where d: "d = (dr, dc)" by (cases d)
  with Cons.prems have nz: "(dr, dc) \<noteq> (0, 0)" by simp
  from checkWinner_while_total[OF nz] obtain res
    where res: "checkWinner_while b pl dr dc (row + dr) (col + dc) line = Some res" by blast
  show ?case
  proof (cases res)
    case (Inl e)
    with res checkWinnerStatic_while_length[OF nz, of b pl "row + dr" "col + dc" line]
    show ?thesis by (simp add: d)
  next
    case (Inr line')
    with res checkWinnerStatic_while_length[OF nz, of b pl "row + dr" "col + dc" line]
    have "checkWinnerStatic_while b pl dr dc (row + dr) (col + dc) (length line) = Some (Inr (length line'))"
      by simp
    with res Inr Cons.IH[of line'] Cons.prems show ?thesis by (simp add: d)
  qed
qed

lemma checkWinner_direction_total:
  assumes "\<forall>d\<in>set ds. d \<noteq> (0, 0)"
  shows "\<exists>res. checkWinner_direction b pl row col ds line = Some res"
  using assms
proof (induction ds arbitrary: line)
  case Nil
  show ?case by simp
next
  case (Cons d ds)
  obtain dr dc where d: "d = (dr, dc)" by (cases d)
  with Cons.prems have nz: "(dr, dc) \<noteq> (0, 0)" by simp
  from checkWinner_while_total[OF nz] obtain res
    where res: "checkWinner_while b pl dr dc (row + dr) (col + dc) line = Some res" by blast
  show ?case
  proof (cases res)
    case (Inl e)
    with res show ?thesis by (simp add: d)
  next
    case (Inr line')
    with res Cons.IH[of line'] Cons.prems show ?thesis by (simp add: d)
  qed
qed

lemma checkWinnerStatic_directions_agree:
  assumes "\<forall>ds\<in>set dss. \<forall>d\<in>set ds. d \<noteq> (0, 0)"
  shows "checkWinnerStatic_directions b pl row col dss =
         map_option (map_sum id (\<lambda>l. l \<noteq> None)) (checkWinner_directions b pl row col dss)"
  using assms
proof (induction dss)
  case Nil
  show ?case by simp
next
  case (Cons ds dss)
  then have nz: "\<forall>d\<in>set ds. d \<noteq> (0, 0)" by simp
  from checkWinner_direction_total[OF nz] obtain res
    where res: "checkWinner_direction b pl row col ds [(row, col)] = Some res" by blast
  have st: "checkWinnerStatic_direction b pl row col ds 1 = Some (map_sum id length res)"
    using checkWinnerStatic_direction_length[OF nz, of b pl row col "[(row, col)]"] res by simp
  show ?case
  proof (cases res)
    case (Inl e)
    with res st show ?thesis by simp
  next
    case (Inr line)
    with res st Cons show ?thesis by simp
  qed
qed

lemma directions_nonzero: "\<forall>ds\<in>set directions. \<forall>d\<in>set ds. d \<noteq> (0, 0)"
  by (simp add: directions_def)

lemma checkWinnerStatic_agrees:
  "checkWinnerStatic b row col =
   map_option (map_sum id (\<lambda>l. l \<noteq> None)) (checkWinner b row col)"
  unfolding checkWinnerStatic_def checkWinner_def
  by (simp add: checkWinnerStatic_directions_agree[OF directions_nonzero]
           split: sum.splits jsread.splits option.splits)

subsection \<open>What the detector returns on a board of the game\<close>

lemma checkWinner_axis:
  assumes len: "ROWS \<le> int (length b)" and nz: "d \<noteq> (0, 0)"
  shows "\<exists>n1 n2. checkWinner_direction b pl row col [d, (- fst d, - snd d)] [(row, col)] =
                   Some (Inr (axisLine row col d n1 n2)) \<and>
           (\<forall>k<n1. matches b pl (row + (1 + int k) * fst d) (col + (1 + int k) * snd d)) \<and>
           \<not> matches b pl (row + (1 + int n1) * fst d) (col + (1 + int n1) * snd d) \<and>
           (\<forall>k<n2. matches b pl (row - (1 + int k) * fst d) (col - (1 + int k) * snd d)) \<and>
           \<not> matches b pl (row - (1 + int n2) * fst d) (col - (1 + int n2) * snd d)"
proof -
  obtain dr dc where d: "d = (dr, dc)" by (cases d)
  have nz1: "(dr, dc) \<noteq> (0, 0)" using nz d by simp
  have nz2: "(- dr, - dc) \<noteq> (0, 0)" using nz d by simp
  have e1: "row + dr + int k * dr = row + (1 + int k) * dr"
           "col + dc + int k * dc = col + (1 + int k) * dc" for k
    by (simp_all add: algebra_simps)
  have e2: "row + - dr + int k * - dr = row - (1 + int k) * dr"
           "col + - dc + int k * - dc = col - (1 + int k) * dc" for k
    by (simp_all add: algebra_simps)
  from checkWinner_while_run[OF len nz1, of pl "row + dr" "col + dc" "[(row, col)]"]
  obtain n1 where
    w1: "checkWinner_while b pl dr dc (row + dr) (col + dc) [(row, col)] =
         Some (Inr ([(row, col)] @ map (\<lambda>k. (row + (1 + int k) * dr, col + (1 + int k) * dc)) [0..<n1]))"
    and a1: "\<forall>k<n1. matches b pl (row + (1 + int k) * dr) (col + (1 + int k) * dc)"
    and s1: "\<not> matches b pl (row + (1 + int n1) * dr) (col + (1 + int n1) * dc)"
    unfolding e1 by blast
  define l1 where "l1 = [(row, col)] @ map (\<lambda>k. (row + (1 + int k) * dr, col + (1 + int k) * dc)) [0..<n1]"
  from checkWinner_while_run[OF len nz2, of pl "row + - dr" "col + - dc" l1]
  obtain n2 where
    w2: "checkWinner_while b pl (- dr) (- dc) (row + - dr) (col + - dc) l1 =
         Some (Inr (l1 @ map (\<lambda>k. (row - (1 + int k) * dr, col - (1 + int k) * dc)) [0..<n2]))"
    and a2: "\<forall>k<n2. matches b pl (row - (1 + int k) * dr) (col - (1 + int k) * dc)"
    and s2: "\<not> matches b pl (row - (1 + int n2) * dr) (col - (1 + int n2) * dc)"
    unfolding e2 by blast
  have "checkWinner_direction b pl row col [d, (- fst d, - snd d)] [(row, col)] =
        Some (Inr (axisLine row col d n1 n2))"
    using w1 w2 by (simp add: d l1_def axisLine_def)
  with a1 s1 a2 s2 show ?thesis unfolding d by auto
qed

lemma length_axisLine [simp]: "length (axisLine row col d n1 n2) = 1 + n1 + n2"
  by (simp add: axisLine_def)

lemma fourOnAxis_iff:
  "fourOnAxis b pl row col d \<longleftrightarrow>
   (\<exists>s\<in>{- 3..0}. \<forall>k\<in>{s..s + 3}. matches b pl (row + k * fst d) (col + k * snd d))"
proof -
  have starts: "set [- 3, - 2, - 1, 0 :: int] = {- 3..0}" by auto
  have window: "(\<forall>k\<in>set [0, 1, 2, 3 :: int]. P (s + k)) \<longleftrightarrow> (\<forall>k\<in>{s..s + 3}. P k)"
    for P and s :: int
  proof
    assume a: "\<forall>k\<in>set [0, 1, 2, 3 :: int]. P (s + k)"
    show "\<forall>k\<in>{s..s + 3}. P k"
    proof
      fix k assume "k \<in> {s..s + 3}"
      then have "k - s \<in> set [0, 1, 2, 3 :: int]" by auto
      with a have "P (s + (k - s))" by blast
      then show "P k" by simp
    qed
  next
    assume "\<forall>k\<in>{s..s + 3}. P k"
    then show "\<forall>k\<in>set [0, 1, 2, 3 :: int]. P (s + k)" by simp
  qed
  show ?thesis
    unfolding fourOnAxis_def starts
    using window[of "\<lambda>k. matches b pl (row + k * fst d) (col + k * snd d)"] by simp
qed

lemma run_four_iff:
  assumes m0: "matches b pl row col"
    and a1: "\<forall>k<n1. matches b pl (row + (1 + int k) * dr) (col + (1 + int k) * dc)"
    and s1: "\<not> matches b pl (row + (1 + int n1) * dr) (col + (1 + int n1) * dc)"
    and a2: "\<forall>k<n2. matches b pl (row - (1 + int k) * dr) (col - (1 + int k) * dc)"
    and s2: "\<not> matches b pl (row - (1 + int n2) * dr) (col - (1 + int n2) * dc)"
  shows "4 \<le> 1 + n1 + n2 \<longleftrightarrow> fourOnAxis b pl row col (dr, dc)"
proof
  have inside: "matches b pl (row + k * dr) (col + k * dc)" if "- int n2 \<le> k" "k \<le> int n1" for k
  proof -
    consider "k = 0" | "0 < k" | "k < 0" by arith
    then show ?thesis
    proof cases
      case 1
      with m0 show ?thesis by simp
    next
      case 2
      with that have "nat (k - 1) < n1" by arith
      with a1 have "matches b pl (row + (1 + int (nat (k - 1))) * dr) (col + (1 + int (nat (k - 1))) * dc)"
        by blast
      moreover have "1 + int (nat (k - 1)) = k" using 2 by simp
      ultimately show ?thesis by simp
    next
      case 3
      with that have "nat (- k - 1) < n2" by arith
      with a2 have "matches b pl (row - (1 + int (nat (- k - 1))) * dr) (col - (1 + int (nat (- k - 1))) * dc)"
        by blast
      moreover have "1 + int (nat (- k - 1)) = - k" using 3 by simp
      ultimately show ?thesis by simp
    qed
  qed
  {
    assume four: "4 \<le> 1 + n1 + n2"
    define s where "s = max (- 3) (- int n2)"
    have "s \<in> {- 3..0}" by (simp add: s_def)
    moreover have "\<forall>k\<in>{s..s + 3}. matches b pl (row + k * dr) (col + k * dc)"
    proof
      fix k assume "k \<in> {s..s + 3}"
      then have "- int n2 \<le> k" "k \<le> int n1" using four by (auto simp: s_def)
      then show "matches b pl (row + k * dr) (col + k * dc)" by (rule inside)
    qed
    ultimately show "fourOnAxis b pl row col (dr, dc)"
      by (auto simp: fourOnAxis_iff)
  }
  {
    assume "fourOnAxis b pl row col (dr, dc)"
    then obtain s where s: "- 3 \<le> s" "s \<le> 0"
      and win: "\<forall>k\<in>{s..s + 3}. matches b pl (row + k * dr) (col + k * dc)"
      by (auto simp: fourOnAxis_iff)
    have "s + 3 \<le> int n1"
    proof (rule ccontr)
      assume "\<not> s + 3 \<le> int n1"
      then have "1 + int n1 \<in> {s..s + 3}" using s by auto
      with win s1 show False by blast
    qed
    moreover have "- s \<le> int n2"
    proof (rule ccontr)
      assume "\<not> - s \<le> int n2"
      then have "- (1 + int n2) \<in> {s..s + 3}" using s by auto
      with win have "matches b pl (row + (- (1 + int n2)) * dr) (col + (- (1 + int n2)) * dc)"
        by blast
      moreover have "row + (- (1 + int n2)) * dr = row - (1 + int n2) * dr"
        "col + (- (1 + int n2)) * dc = col - (1 + int n2) * dc"
        by (simp_all add: algebra_simps)
      ultimately show False using s2 by simp
    qed
    ultimately show "4 \<le> 1 + n1 + n2" by arith
  }
qed

lemma matches_axisLine:
  assumes m0: "matches b pl row col"
    and a1: "\<forall>k<n1. matches b pl (row + (1 + int k) * fst d) (col + (1 + int k) * snd d)"
    and a2: "\<forall>k<n2. matches b pl (row - (1 + int k) * fst d) (col - (1 + int k) * snd d)"
  shows "\<forall>(r, c)\<in>set (axisLine row col d n1 n2). matches b pl r c"
  using assms by (auto simp: axisLine_def)

text \<open>The loop over the axes: \<open>None\<close> when no axis has four, else a line on one of them.\<close>

lemma checkWinner_directions_result:
  assumes len: "ROWS \<le> int (length b)" and m0: "matches b pl row col"
    and nzs: "\<forall>d\<in>set ds. d \<noteq> (0, 0)"
  shows "\<exists>res. checkWinner_directions b pl row col (map (\<lambda>d. [d, (- fst d, - snd d)]) ds) = Some (Inr res) \<and>
           (res \<noteq> None \<longleftrightarrow> (\<exists>d\<in>set ds. fourOnAxis b pl row col d)) \<and>
           (\<forall>line. res = Some line \<longrightarrow>
              4 \<le> length line \<and>
              (\<exists>d\<in>set ds. \<exists>n1 n2. line = axisLine row col d n1 n2 \<and>
                  (\<forall>(r, c)\<in>set line. matches b pl r c)))"
  using nzs
proof (induction ds)
  case Nil
  show ?case by simp
next
  case (Cons d ds)
  then have nz: "d \<noteq> (0, 0)" and rest: "\<forall>d\<in>set ds. d \<noteq> (0, 0)" by auto
  from checkWinner_axis[OF len nz, of pl row col]
  obtain n1 n2 where
    ax: "checkWinner_direction b pl row col [d, (- fst d, - snd d)] [(row, col)] =
                   Some (Inr (axisLine row col d n1 n2))"
    and a1: "\<forall>k<n1. matches b pl (row + (1 + int k) * fst d) (col + (1 + int k) * snd d)"
    and s1: "\<not> matches b pl (row + (1 + int n1) * fst d) (col + (1 + int n1) * snd d)"
    and a2: "\<forall>k<n2. matches b pl (row - (1 + int k) * fst d) (col - (1 + int k) * snd d)"
    and s2: "\<not> matches b pl (row - (1 + int n2) * fst d) (col - (1 + int n2) * snd d)"
    by blast
  have iff: "4 \<le> 1 + n1 + n2 \<longleftrightarrow> fourOnAxis b pl row col d"
    using run_four_iff[OF m0, of n1 "fst d" "snd d" n2] a1 s1 a2 s2 by simp
  show ?case
  proof (cases "4 \<le> 1 + n1 + n2")
    case True
    have "checkWinner_directions b pl row col (map (\<lambda>d. [d, (- fst d, - snd d)]) (d # ds)) =
          Some (Inr (Some (axisLine row col d n1 n2)))"
      using ax True by simp
    moreover have "\<forall>(r, c)\<in>set (axisLine row col d n1 n2). matches b pl r c"
      by (rule matches_axisLine[OF m0 a1 a2])
    ultimately show ?thesis using True iff nz by auto
  next
    case False
    have "checkWinner_directions b pl row col (map (\<lambda>d. [d, (- fst d, - snd d)]) (d # ds)) =
          checkWinner_directions b pl row col (map (\<lambda>d. [d, (- fst d, - snd d)]) ds)"
      using ax False by simp
    with Cons.IH[OF rest] False iff show ?thesis by auto
  qed
qed

lemma directions_axes: "directions = map (\<lambda>d. [d, (- fst d, - snd d)]) axes"
  by (simp add: directions_def axes_def)

lemma axes_nonzero: "\<forall>d\<in>set axes. d \<noteq> (0, 0)"
  by (simp add: axes_def)

lemma fourOnAxis_matches: "fourOnAxis b pl row col d \<Longrightarrow> matches b pl row col"
proof -
  assume "fourOnAxis b pl row col d"
  then obtain s where "- 3 \<le> s" "s \<le> 0"
      and win: "\<forall>k\<in>{s..s + 3}. matches b pl (row + k * fst d) (col + k * snd d)"
    by (auto simp: fourOnAxis_iff)
  then have "0 \<in> {s..s + 3}" by simp
  with win have "matches b pl (row + 0 * fst d) (col + 0 * snd d)" by blast
  then show ?thesis by simp
qed

lemma checkWinner_characterisation:
  assumes "wf_board b" "0 \<le> row" "row < ROWS" "0 \<le> col" "col < COLS"
  shows "\<exists>res. checkWinner b row col = Some (Inr res) \<and>
           (res \<noteq> None \<longleftrightarrow> fourInLine b row col) \<and>
           (\<forall>line. res = Some line \<longrightarrow>
              4 \<le> length line \<and>
              (\<exists>pl. \<exists>d\<in>set axes. \<exists>n1 n2. line = axisLine row col d n1 n2 \<and>
                  (\<forall>(r, c)\<in>set line. matches b pl r c)))"
proof -
  have len: "ROWS \<le> int (length b)" using assms(1) by (simp add: wf_board_def)
  have rd: "readCell b row col = Inr (Value (b ! nat row ! nat col))"
    using readCell_wf[OF assms] .
  show ?thesis
  proof (cases "b ! nat row ! nat col")
    case None
    then have "\<not> matches b pl row col" for pl by (simp add: matches_def rd)
    then have "\<not> fourInLine b row col"
      unfolding fourInLine_def using fourOnAxis_matches by blast
    moreover have "checkWinner b row col = Some (Inr None)"
      by (simp add: checkWinner_def rd None)
    ultimately show ?thesis by simp
  next
    case (Some pl)
    then have m0: "matches b pl row col" using assms by (simp add: matches_def rd)
    have other: "\<not> matches b pl' row col" if "pl' \<noteq> pl" for pl'
      using that by (simp add: matches_def rd Some)
    have cw: "checkWinner b row col = checkWinner_directions b pl row col directions"
      by (simp add: checkWinner_def rd Some)
    from checkWinner_directions_result[OF len m0 axes_nonzero]
    obtain res where
      r1: "checkWinner_directions b pl row col directions = Some (Inr res)"
      and r2: "res \<noteq> None \<longleftrightarrow> (\<exists>d\<in>set axes. fourOnAxis b pl row col d)"
      and r3: "\<forall>line. res = Some line \<longrightarrow>
              4 \<le> length line \<and>
              (\<exists>d\<in>set axes. \<exists>n1 n2. line = axisLine row col d n1 n2 \<and>
                  (\<forall>(r, c)\<in>set line. matches b pl r c))"
      unfolding directions_axes [symmetric] by blast
    have "fourInLine b row col \<longleftrightarrow> (\<exists>d\<in>set axes. fourOnAxis b pl row col d)"
    proof
      assume "fourInLine b row col"
      then obtain pl' d where "d \<in> set axes" "fourOnAxis b pl' row col d"
        by (auto simp: fourInLine_def)
      moreover from this have "pl' = pl" using other fourOnAxis_matches by blast
      ultimately show "\<exists>d\<in>set axes. fourOnAxis b pl row col d" by blast
    next
      assume "\<exists>d\<in>set axes. fourOnAxis b pl row col d"
      moreover have "pl \<in> {Red, Yellow}" by (cases pl) auto
      ultimately show "fourInLine b row col" unfolding fourInLine_def by blast
    qed
    then have c2: "res \<noteq> None \<longleftrightarrow> fourInLine b row col" using r2 by simp
    have c3: "\<forall>line. res = Some line \<longrightarrow>
              4 \<le> length line \<and>
              (\<exists>pl. \<exists>d\<in>set axes. \<exists>n1 n2. line = axisLine row col d n1 n2 \<and>
                  (\<forall>(r, c)\<in>set line. matches b pl r c))"
      using r3 by blast
    have c1: "checkWinner b row col = Some (Inr res)" using r1 cw by simp
    from c1 c2 c3 show ?thesis by blast
  qed
qed

text \<open>
  Claim C1. On a 6x7 board and an in-range coordinate \<open>(row, col)\<close>, \<open>checkWinner\<close>
  returns without throwing, and it returns a line exactly when four collinear,
  contiguous cells through \<open>(row, col)\<close> hold the same token (\<open>fourInLine\<close>); otherwise
  it returns \<open>null\<close>. A returned line has at least four coordinates; it is the cell
  itself followed by the adjacent cells in the two directions of one axis, and every
  cell of it holds one and the same token.
\<close>

theorem checkWinner_spec:
  assumes "wf_board b" "0 \<le> row" "row < ROWS" "0 \<le> col" "col < COLS"
  shows "\<exists>res. checkWinner b row col = Some (Inr res) \<and>
           (res \<noteq> None \<longleftrightarrow> fourInLine b row col) \<and>
           (\<forall>line. res = Some line \<longrightarrow>
              4 \<le> length line \<and>
              (\<exists>pl. \<exists>d\<in>set axes. \<exists>n1 n2. line = axisLine row col d n1 n2 \<and>
                  (\<forall>(r, c)\<in>set line. matches b pl r c)))"
  using assms by (rule checkWinner_characterisation)

theorem checkWinner_spec_witness:
  "wf_board board_red_won \<and> fourInLine board_red_won 2 3 \<and>
   checkWinner board_red_won 2 3 \<noteq> Some (Inr None) \<and>
   wf_board board_stack \<and> \<not> fourInLine board_stack 3 3 \<and>
   checkWinner board_stack 3 3 = Some (Inr None)"
proof -
  have wf1: "wf_board board_red_won" by code_simp
  have wf2: "wf_board board_stack" by code_simp
  have four: "fourInLine board_red_won 2 3" by code_simp
  have nofour: "\<not> fourInLine board_stack 3 3" by code_simp
  have "checkWinner board_red_won 2 3 \<noteq> Some (Inr None)"
    using checkWinner_spec[OF wf1, of 2 3] four by (auto simp: ROWS_def COLS_def)
  moreover have "checkWinner board_stack 3 3 = Some (Inr None)"
    using checkWinner_spec[OF wf2, of 3 3] nofour by (auto simp: ROWS_def COLS_def)
  ultimately show ?thesis using wf1 wf2 four nofour by simp
qed

text \<open>
  Claim C10. On a 6x7 board and an in-range coordinate, \<open>checkWinnerStatic\<close> returns
  \<open>true\<close> exactly when \<open>checkWinner\<close> returns a line, and \<open>false\<close> exactly when it returns
  \<open>null\<close>; neither throws.
\<close>

theorem checkWinnerStatic_equiv:
  assumes "wf_board b" "0 \<le> row" "row < ROWS" "0 \<le> col" "col < COLS"
  shows "\<exists>res. checkWinner b row col = Some (Inr res) \<and>
               checkWinnerStatic b row col = Some (Inr (res \<noteq> None))"
proof -
  from checkWinner_characterisation[OF assms]
  obtain res where "checkWinner b row col = Some (Inr res)" by blast
  then show ?thesis by (simp add: checkWinnerStatic_agrees)
qed

theorem checkWinnerStatic_equiv_witness:
  "wf_board board_red_won \<and>
   checkWinnerStatic board_red_won 2 3 = Some (Inr True) \<and>
   checkWinner board_red_won 2 3 = Some (Inr (Some [(2, 3), (3, 3), (4, 3), (5, 3)])) \<and>
   checkWinnerStatic board_red_won 4 0 = Some (Inr False) \<and>
   checkWinner board_red_won 4 0 = Some (Inr None)"
proof -
  have wf: "wf_board board_red_won" by code_simp
  have a: "checkWinner board_red_won 2 3 = Some (Inr (Some [(2, 3), (3, 3), (4, 3), (5, 3)]))"
    by code_simp
  have b: "checkWinner board_red_won 4 0 = Some (Inr None)" by code_simp
  have "checkWinnerStatic board_red_won 2 3 = Some (Inr True)"
    using checkWinnerStatic_equiv[OF wf, of 2 3] a by (simp add: ROWS_def COLS_def)
  moreover have "checkWinnerStatic board_red_won 4 0 = Some (Inr False)"
    using checkWinnerStatic_equiv[OF wf, of 4 0] b by (simp add: ROWS_def COLS_def)
  ultimately show ?thesis using wf a b by simp
qed

section \<open>Properties of the bot strategy\<close>

lemma rowIndices_set: "set rowIndices = {0..ROWS - 1}"
  by (auto simp: rowIndices_def ROWS_def)

lemma landsAt_iff:
  "landsAt b col row \<longleftrightarrow>
     0 \<le> col \<and> col < COLS \<and> 0 \<le> row \<and> row < ROWS \<and>
     readCell b row col = Inr (Value None) \<and>
     (\<forall>k. row < k \<and> k < ROWS \<longrightarrow> readCell b k col \<noteq> Inr (Value None))"
proof -
  have "(\<forall>k\<in>{0..ROWS - 1}. k \<le> row \<or> readCell b k col \<noteq> Inr (Value None)) \<longleftrightarrow>
        (\<forall>k. row < k \<and> k < ROWS \<longrightarrow> readCell b k col \<noteq> Inr (Value None))"
    if "0 \<le> row"
  proof
    assume a: "\<forall>k\<in>{0..ROWS - 1}. k \<le> row \<or> readCell b k col \<noteq> Inr (Value None)"
    show "\<forall>k. row < k \<and> k < ROWS \<longrightarrow> readCell b k col \<noteq> Inr (Value None)"
    proof (intro allI impI)
      fix k assume k: "row < k \<and> k < ROWS"
      with that have "k \<in> {0..ROWS - 1}" by simp
      with a k show "readCell b k col \<noteq> Inr (Value None)" by fastforce
    qed
  next
    assume "\<forall>k. row < k \<and> k < ROWS \<longrightarrow> readCell b k col \<noteq> Inr (Value None)"
    then show "\<forall>k\<in>{0..ROWS - 1}. k \<le> row \<or> readCell b k col \<noteq> Inr (Value None)"
      by (auto simp: not_le)
  qed
  then show ?thesis
    unfolding landsAt_def list_all_iff rowIndices_set by blast
qed

lemma landsAt_unique: "landsAt b col r \<Longrightarrow> landsAt b col r' \<Longrightarrow> r = r'"
  unfolding landsAt_iff by (metis linorder_neqE_linordered_idom)

lemma getLowestEmptyRow_landsAt:
  assumes "wf_board b"
  shows "(getLowestEmptyRow b col = Inr (- 1) \<and> (\<forall>r. \<not> landsAt b col r)) \<or>
         (\<exists>r. getLowestEmptyRow b col = Inr r \<and> r \<noteq> - 1 \<and> landsAt b col r)"
proof -
  have len: "ROWS \<le> int (length b)" using assms by (simp add: wf_board_def)
  consider (full) "getLowestEmptyRow b col = Inr (- 1)"
      "\<forall>k. 0 \<le> k \<and> k < ROWS \<longrightarrow> readCell b k col \<noteq> Inr (Value None)"
    | (found) r where "getLowestEmptyRow b col = Inr r" "0 \<le> r" "r < ROWS"
      "readCell b r col = Inr (Value None)"
      "\<forall>k. r < k \<and> k < ROWS \<longrightarrow> readCell b k col \<noteq> Inr (Value None)"
    using getLowestEmptyRow_cases[OF len, of col] by blast
  then show ?thesis
  proof cases
    case full
    then show ?thesis by (auto simp: landsAt_iff)
  next
    case (found r)
    have "\<not> (col < 0 \<or> COLS \<le> col)"
      using readCell_undefined_col[OF assms found(2,3), of col] found(4) by auto
    with found show ?thesis by (auto simp: landsAt_iff)
  qed
qed

lemma wf_board_writeCell: "wf_board b \<Longrightarrow> wf_board (writeCell b r c v)"
proof (cases "nat r < length b")
  case True
  assume "wf_board b"
  then show ?thesis
    using True by (auto simp: wf_board_def writeCell_def list_all_length nth_list_update)
next
  case False
  assume "wf_board b"
  then show ?thesis
    using False by (simp add: writeCell_def list_update_beyond)
qed

lemma checkWinnerStatic_fourInLine:
  assumes "wf_board b" "0 \<le> row" "row < ROWS" "0 \<le> col" "col < COLS"
  shows "checkWinnerStatic b row col = Some (Inr (fourInLine b row col))"
proof -
  from checkWinner_characterisation[OF assms]
  obtain res where "checkWinner b row col = Some (Inr res)" "res \<noteq> None \<longleftrightarrow> fourInLine b row col"
    by blast
  then show ?thesis by (simp add: checkWinnerStatic_agrees)
qed

lemma winningDrop_iff:
  "winningDrop b token col \<longleftrightarrow>
   (\<exists>row. landsAt b col row \<and> fourInLine (writeCell b row col token) row col)"
  unfolding winningDrop_def list_ex_iff rowIndices_set by (auto simp: landsAt_iff)

lemma legalDrop_iff: "legalDrop b col \<longleftrightarrow> (\<exists>row. landsAt b col row)"
  unfolding legalDrop_def list_ex_iff rowIndices_set by (auto simp: landsAt_iff)

declare getBotMove_scan.simps [simp del]

text \<open>One pass of the scan: the first winning drop from column \<open>col\<close> on, if there is one.\<close>

lemma getBotMove_scan_spec:
  assumes "wf_board b"
  shows "(getBotMove_scan b token col = Some (Inr None) \<and>
            (\<forall>k. col \<le> k \<longrightarrow> \<not> winningDrop b token k)) \<or>
         (\<exists>k. getBotMove_scan b token col = Some (Inr (Some k)) \<and> col \<le> k \<and>
              winningDrop b token k \<and> (\<forall>j. col \<le> j \<and> j < k \<longrightarrow> \<not> winningDrop b token j))"
  using assms
proof (induction b token col rule: getBotMove_scan.induct)
  case (1 b token col)
  note wf = \<open>wf_board b\<close>
  show ?case
  proof (cases "col < COLS")
    case False
    then have "getBotMove_scan b token col = Some (Inr None)"
      by (subst getBotMove_scan.simps) simp
    moreover have "\<not> winningDrop b token k" if "col \<le> k" for k
      using that False by (auto simp: winningDrop_iff landsAt_iff)
    ultimately show ?thesis by blast
  next
    case True
    have next_col: "\<And>k. col \<le> k \<Longrightarrow> k \<noteq> col \<Longrightarrow> col + 1 \<le> k" by arith
    consider (full) "getLowestEmptyRow b col = Inr (- 1)" "\<forall>r. \<not> landsAt b col r"
      | (found) r where "getLowestEmptyRow b col = Inr r" "r \<noteq> - 1" "landsAt b col r"
      using getLowestEmptyRow_landsAt[OF wf, of col] by blast
    then show ?thesis
    proof cases
      case full
      have step: "getBotMove_scan b token col = getBotMove_scan b token (col + 1)"
        using True full(1) by (subst getBotMove_scan.simps) simp
      have nowin: "\<not> winningDrop b token col"
        using full(2) by (simp add: winningDrop_iff)
      have f3: "getLowestEmptyRow (copyBoard b) col = Inr (- 1)" using full(1) by simp
      have f4: "\<not> (- 1 :: int) \<noteq> - 1" by simp
      from "1.IH"(2)[OF True refl f3 f4 wf]
      have IH: "(getBotMove_scan b token (col + 1) = Some (Inr None) \<and>
            (\<forall>k. col + 1 \<le> k \<longrightarrow> \<not> winningDrop b token k)) \<or>
         (\<exists>k. getBotMove_scan b token (col + 1) = Some (Inr (Some k)) \<and> col + 1 \<le> k \<and>
              winningDrop b token k \<and> (\<forall>j. col + 1 \<le> j \<and> j < k \<longrightarrow> \<not> winningDrop b token j))"
        by simp
      then show ?thesis
      proof
        assume a: "getBotMove_scan b token (col + 1) = Some (Inr None) \<and>
            (\<forall>k. col + 1 \<le> k \<longrightarrow> \<not> winningDrop b token k)"
        then have "\<forall>k. col \<le> k \<longrightarrow> \<not> winningDrop b token k"
          using nowin next_col by blast
        with a step show ?thesis by simp
      next
        assume "\<exists>k. getBotMove_scan b token (col + 1) = Some (Inr (Some k)) \<and> col + 1 \<le> k \<and>
              winningDrop b token k \<and> (\<forall>j. col + 1 \<le> j \<and> j < k \<longrightarrow> \<not> winningDrop b token j)"
        then obtain k where k: "getBotMove_scan b token (col + 1) = Some (Inr (Some k))"
          "col + 1 \<le> k" "winningDrop b token k"
          "\<forall>j. col + 1 \<le> j \<and> j < k \<longrightarrow> \<not> winningDrop b token j" by blast
        have "\<forall>j. col \<le> j \<and> j < k \<longrightarrow> \<not> winningDrop b token j"
          using k(4) nowin next_col by blast
        with k step show ?thesis by auto
      qed
    next
      case (found r)
      have rng: "0 \<le> r" "r < ROWS" "0 \<le> col" "col < COLS"
        using found(3) by (auto simp: landsAt_iff)
      have cw: "checkWinnerStatic (writeCell b r col token) r col =
                Some (Inr (fourInLine (writeCell b r col token) r col))"
        by (rule checkWinnerStatic_fourInLine[OF wf_board_writeCell[OF wf] rng])
      have wd: "winningDrop b token col \<longleftrightarrow> fourInLine (writeCell b r col token) r col"
        using found(3) landsAt_unique[of b col] by (auto simp: winningDrop_iff)
      show ?thesis
      proof (cases "fourInLine (writeCell b r col token) r col")
        case four: True
        have "getBotMove_scan b token col = Some (Inr (Some col))"
          using True found(1,2) cw four by (subst getBotMove_scan.simps) simp
        with wd four show ?thesis by auto
      next
        case nofour: False
        have step: "getBotMove_scan b token col = getBotMove_scan b token (col + 1)"
          using True found(1,2) cw nofour by (subst getBotMove_scan.simps) simp
        have nowin: "\<not> winningDrop b token col" using wd nofour by simp
        have f3: "getLowestEmptyRow (copyBoard b) col = Inr r" using found(1) by simp
        have f5: "checkWinnerStatic (writeCell (copyBoard b) r col token) r col = Some (Inr False)"
          using cw nofour by simp
        have f7: "\<not> False" by simp
        from "1.IH"(1)[OF True refl f3 found(2) f5 refl f7 wf]
        have IH: "(getBotMove_scan b token (col + 1) = Some (Inr None) \<and>
            (\<forall>k. col + 1 \<le> k \<longrightarrow> \<not> winningDrop b token k)) \<or>
         (\<exists>k. getBotMove_scan b token (col + 1) = Some (Inr (Some k)) \<and> col + 1 \<le> k \<and>
              winningDrop b token k \<and> (\<forall>j. col + 1 \<le> j \<and> j < k \<longrightarrow> \<not> winningDrop b token j))"
          by simp
        then show ?thesis
        proof
          assume a: "getBotMove_scan b token (col + 1) = Some (Inr None) \<and>
            (\<forall>k. col + 1 \<le> k \<longrightarrow> \<not> winningDrop b token k)"
          then have "\<forall>k. col \<le> k \<longrightarrow> \<not> winningDrop b token k"
            using nowin next_col by blast
          with a step show ?thesis by simp
        next
          assume "\<exists>k. getBotMove_scan b token (col + 1) = Some (Inr (Some k)) \<and> col + 1 \<le> k \<and>
              winningDrop b token k \<and> (\<forall>j. col + 1 \<le> j \<and> j < k \<longrightarrow> \<not> winningDrop b token j)"
          then obtain k where k: "getBotMove_scan b token (col + 1) = Some (Inr (Some k))"
            "col + 1 \<le> k" "winningDrop b token k"
            "\<forall>j. col + 1 \<le> j \<and> j < k \<longrightarrow> \<not> winningDrop b token j" by blast
          have "\<forall>j. col \<le> j \<and> j < k \<longrightarrow> \<not> winningDrop b token j"
            using k(4) nowin next_col by blast
          with k step show ?thesis by auto
        qed
      qed
    qed
  qed
qed

subsection \<open>The tiers of \<open>getBotMove\<close>\<close>

lemma colIndices_set: "set colIndices = {0..COLS - 1}"
  by (auto simp: colIndices_def COLS_def)

lemma landsAt_col: "landsAt b col row \<Longrightarrow> col \<in> set colIndices"
  unfolding colIndices_set by (simp add: landsAt_iff)

lemma no_winningDrop_iff:
  "(\<forall>k. \<not> winningDrop b token k) \<longleftrightarrow> list_all (\<lambda>k. \<not> winningDrop b token k) colIndices"
  unfolding list_all_iff using landsAt_col by (auto simp: winningDrop_iff)

lemma getBotMove_first_scan:
  "getBotMove_scan b botPlayer 0 = Some (Inr (Some k)) \<Longrightarrow>
   getBotMove pick b botPlayer = Some (Inr (Some k))"
  by (simp add: getBotMove_def)

lemma getBotMove_second_scan:
  "getBotMove_scan b botPlayer 0 = Some (Inr None) \<Longrightarrow>
   getBotMove_scan b (if botPlayer = Some Red then Some Yellow else Some Red) 0 = Some (Inr (Some k)) \<Longrightarrow>
   getBotMove pick b botPlayer = Some (Inr (Some k))"
  by (simp add: getBotMove_def)

lemma getBotMove_third_loop:
  "getBotMove_scan b botPlayer 0 = Some (Inr None) \<Longrightarrow>
   getBotMove_scan b (if botPlayer = Some Red then Some Yellow else Some Red) 0 = Some (Inr None) \<Longrightarrow>
   getBotMove_center b centerCols = Inr (Some k) \<Longrightarrow>
   getBotMove pick b botPlayer = Some (Inr (Some k))"
  by (simp add: getBotMove_def)

lemma winningDrop_col_nonneg: "winningDrop b token k \<Longrightarrow> 0 \<le> k"
  by (auto simp: winningDrop_iff landsAt_iff)

lemma getBotMove_scan_first_win:
  assumes "wf_board b" "winningDrop b token k0"
  shows "\<exists>k. getBotMove_scan b token 0 = Some (Inr (Some k)) \<and> winningDrop b token k \<and>
             (\<forall>j. j < k \<longrightarrow> \<not> winningDrop b token j)"
proof -
  have "0 \<le> k0" using assms(2) by (rule winningDrop_col_nonneg)
  with getBotMove_scan_spec[OF assms(1), of token 0] assms(2)
  obtain k where k: "getBotMove_scan b token 0 = Some (Inr (Some k))" "winningDrop b token k"
    "\<forall>j. 0 \<le> j \<and> j < k \<longrightarrow> \<not> winningDrop b token j"
    by blast
  have "\<forall>j. j < k \<longrightarrow> \<not> winningDrop b token j"
    using k(3) winningDrop_col_nonneg by blast
  with k show ?thesis by blast
qed

lemma getBotMove_scan_no_win:
  assumes "wf_board b" "\<forall>k. \<not> winningDrop b token k"
  shows "getBotMove_scan b token 0 = Some (Inr None)"
  using getBotMove_scan_spec[OF assms(1), of token 0] assms(2) by blast

lemma opponent_other: "(if Some p = Some Red then Some Yellow else Some Red) = Some (other p)"
  by (cases p) simp_all

lemma getBotMove_center_find:
  assumes "wf_board b"
  shows "getBotMove_center b cols = Inr (find (legalDrop b) cols)"
proof (induction cols)
  case Nil
  show ?case by simp
next
  case (Cons col cols)
  from getLowestEmptyRow_landsAt[OF assms, of col] Cons show ?case
    by (auto simp: legalDrop_iff)
qed

lemma legalDrop_empty_cell:
  assumes "wf_board b" "0 \<le> r" "r < ROWS" "0 \<le> c" "c < COLS" "readCell b r c = Inr (Value None)"
  shows "legalDrop b c"
proof -
  have len: "ROWS \<le> int (length b)" using assms(1) by (simp add: wf_board_def)
  from getLowestEmptyRow_cases[OF len, of c] assms(2,3,6)
  obtain r' where "0 \<le> r'" "r' < ROWS" "readCell b r' c = Inr (Value None)"
      "\<forall>k. r' < k \<and> k < ROWS \<longrightarrow> readCell b k c \<noteq> Inr (Value None)"
    by blast
  with assms(4,5) have "landsAt b c r'" by (simp add: landsAt_iff)
  then show ?thesis unfolding legalDrop_iff ..
qed

lemma not_full_legalDrop:
  assumes "wf_board b" "\<not> boardFull b"
  shows "\<exists>c\<in>set centerCols. legalDrop b c"
proof -
  from assms(2) obtain i j where ij: "i < length b" "j < length (b ! i)" "b ! i ! j = None"
    by (auto simp: boardFull_def list_all_length)
  have rows: "int i < ROWS" and cols: "int j < COLS"
    using assms(1) ij(1,2) by (auto simp: wf_board_def list_all_length)
  have "readCell b (int i) (int j) = Inr (Value None)"
    using ij by (simp add: readCell_def)
  then have "legalDrop b (int j)"
    using legalDrop_empty_cell[OF assms(1) _ rows _ cols] by simp
  moreover have "int j \<in> set centerCols"
    using cols by (auto simp: centerCols_def COLS_def)
  ultimately show ?thesis ..
qed

text \<open>
  Claim C3. On a 6x7 board on which some column is a winning drop for the bot's token
  (a legal drop that puts the token in a line of four), \<open>getBotMove\<close> returns such a
  column, and the smallest one: no column to its left is a winning drop. The first
  loop decides; the later tiers are not consulted, whatever they would return.
\<close>

theorem getBotMove_takes_win:
  assumes "wf_board b" "\<exists>k. winningDrop b botPlayer k"
  shows "\<exists>k. getBotMove pick b botPlayer = Some (Inr (Some k)) \<and> winningDrop b botPlayer k \<and>
             (\<forall>j. j < k \<longrightarrow> \<not> winningDrop b botPlayer j)"
proof -
  from assms(2) obtain k0 where "winningDrop b botPlayer k0" ..
  from getBotMove_scan_first_win[OF assms(1) this]
  obtain k where "getBotMove_scan b botPlayer 0 = Some (Inr (Some k))" "winningDrop b botPlayer k"
    "\<forall>j. j < k \<longrightarrow> \<not> winningDrop b botPlayer j" by blast
  then show ?thesis using getBotMove_first_scan by blast
qed

theorem getBotMove_takes_win_witness:
  "wf_board board_yellow_three \<and> winningDrop board_yellow_three (Some Yellow) 3 \<and>
   getBotMove (\<lambda>n. 0) board_yellow_three (Some Yellow) = Some (Inr (Some 3))"
proof -
  have wf: "wf_board board_yellow_three" by code_simp
  have w3: "winningDrop board_yellow_three (Some Yellow) 3" by code_simp
  have none: "list_all (\<lambda>k. k = 3 \<or> \<not> winningDrop board_yellow_three (Some Yellow) k) colIndices"
    by code_simp
  have ex: "\<exists>k. winningDrop board_yellow_three (Some Yellow) k" using w3 ..
  from getBotMove_takes_win[OF wf ex, of "\<lambda>n. 0"]
  obtain k where k: "getBotMove (\<lambda>n. 0) board_yellow_three (Some Yellow) = Some (Inr (Some k))"
    "winningDrop board_yellow_three (Some Yellow) k" by blast
  from k(2) have "k \<in> set colIndices" using landsAt_col by (auto simp: winningDrop_iff)
  with none k(2) have "k = 3" by (auto simp: list_all_iff)
  with k wf w3 show ?thesis by simp
qed

text \<open>
  Claim C4. On a 6x7 board on which the bot has no winning drop and some column is a
  winning drop for the opponent, \<open>getBotMove\<close> returns such a column, and the smallest
  one.
\<close>

theorem getBotMove_blocks:
  assumes "wf_board b" "\<forall>k. \<not> winningDrop b (Some p) k" "\<exists>k. winningDrop b (Some (other p)) k"
  shows "\<exists>k. getBotMove pick b (Some p) = Some (Inr (Some k)) \<and> winningDrop b (Some (other p)) k \<and>
             (\<forall>j. j < k \<longrightarrow> \<not> winningDrop b (Some (other p)) j)"
proof -
  have first: "getBotMove_scan b (Some p) 0 = Some (Inr None)"
    by (rule getBotMove_scan_no_win[OF assms(1,2)])
  from assms(3) obtain k0 where "winningDrop b (Some (other p)) k0" ..
  from getBotMove_scan_first_win[OF assms(1) this]
  obtain k where k: "getBotMove_scan b (Some (other p)) 0 = Some (Inr (Some k))"
    "winningDrop b (Some (other p)) k"
    "\<forall>j. j < k \<longrightarrow> \<not> winningDrop b (Some (other p)) j" by blast
  have "getBotMove pick b (Some p) = Some (Inr (Some k))"
    by (rule getBotMove_second_scan[OF first]) (simp only: opponent_other k(1))
  with k show ?thesis by blast
qed

theorem getBotMove_blocks_witness:
  "wf_board board_stack \<and> winningDrop board_stack (Some Red) 3 \<and>
   \<not> winningDrop board_stack (Some Yellow) 3 \<and>
   getBotMove (\<lambda>n. 0) board_stack (Some Yellow) = Some (Inr (Some 3))"
proof -
  have wf: "wf_board board_stack" by code_simp
  have w3: "winningDrop board_stack (Some (other Yellow)) 3" by code_simp
  have none: "list_all (\<lambda>k. k = 3 \<or> \<not> winningDrop board_stack (Some (other Yellow)) k) colIndices"
    by code_simp
  have "list_all (\<lambda>k. \<not> winningDrop board_stack (Some Yellow) k) colIndices" by code_simp
  then have nowin: "\<forall>k. \<not> winningDrop board_stack (Some Yellow) k"
    by (simp only: no_winningDrop_iff)
  have ex: "\<exists>k. winningDrop board_stack (Some (other Yellow)) k" using w3 ..
  from getBotMove_blocks[OF wf nowin ex, of "\<lambda>n. 0"]
  obtain k where k: "getBotMove (\<lambda>n. 0) board_stack (Some Yellow) = Some (Inr (Some k))"
    "winningDrop board_stack (Some (other Yellow)) k" by blast
  from k(2) have "k \<in> set colIndices" using landsAt_col by (auto simp: winningDrop_iff)
  with none k(2) have "k = 3" by (auto simp: list_all_iff)
  with k wf w3 nowin show ?thesis by simp
qed

text \<open>
  Claim C5. On a 6x7 board that has an empty cell and on which neither the bot nor the
  opponent has a winning drop, \<open>getBotMove\<close> returns the first column of the order
  3, 2, 4, 1, 5, 0, 6 that has a legal drop. The third loop returns it, so the random
  fallback is not reached, and the result is the same for every random draw.
\<close>

theorem getBotMove_center_choice:
  assumes "wf_board b" "\<not> boardFull b"
    "\<forall>k. \<not> winningDrop b (Some p) k" "\<forall>k. \<not> winningDrop b (Some (other p)) k"
  shows "\<exists>k. find (legalDrop b) centerCols = Some k \<and>
             getBotMove_center b centerCols = Inr (Some k) \<and>
             (\<forall>pick. getBotMove pick b (Some p) = Some (Inr (Some k)))"
proof -
  have first: "getBotMove_scan b (Some p) 0 = Some (Inr None)"
    by (rule getBotMove_scan_no_win[OF assms(1,3)])
  have second: "getBotMove_scan b (if Some p = Some Red then Some Yellow else Some Red) 0 = Some (Inr None)"
    unfolding opponent_other by (rule getBotMove_scan_no_win[OF assms(1,4)])
  from not_full_legalDrop[OF assms(1,2)] obtain k where k: "find (legalDrop b) centerCols = Some k"
    by (cases "find (legalDrop b) centerCols") (auto simp: find_None_iff)
  then have third: "getBotMove_center b centerCols = Inr (Some k)"
    by (simp add: getBotMove_center_find[OF assms(1)])
  have "\<forall>pick. getBotMove pick b (Some p) = Some (Inr (Some k))"
    using getBotMove_third_loop[OF first second third] by blast
  with k third show ?thesis by blast
qed

theorem getBotMove_center_choice_witness:
  "wf_board board_center_full \<and> \<not> boardFull board_center_full \<and>
   find (legalDrop board_center_full) centerCols = Some 2 \<and>
   getBotMove (\<lambda>n. 0) board_center_full (Some Yellow) = Some (Inr (Some 2))"
proof -
  have wf: "wf_board board_center_full" by code_simp
  have nf: "\<not> boardFull board_center_full" by code_simp
  have "list_all (\<lambda>k. \<not> winningDrop board_center_full (Some Yellow) k) colIndices" by code_simp
  then have n1: "\<forall>k. \<not> winningDrop board_center_full (Some Yellow) k"
    by (simp only: no_winningDrop_iff)
  have "list_all (\<lambda>k. \<not> winningDrop board_center_full (Some (other Yellow)) k) colIndices"
    by code_simp
  then have n2: "\<forall>k. \<not> winningDrop board_center_full (Some (other Yellow)) k"
    by (simp only: no_winningDrop_iff)
  have f: "find (legalDrop board_center_full) centerCols = Some 2" by code_simp
  from getBotMove_center_choice[OF wf nf n1 n2] f
  have "getBotMove (\<lambda>n. 0) board_center_full (Some Yellow) = Some (Inr (Some 2))" by auto
  with wf nf f show ?thesis by simp
qed

section \<open>A winning drop in column 3\<close>

lemma readCell_writeCell:
  assumes "0 \<le> r" "r < int (length b)" "0 \<le> c" "c < int (length (b ! nat r))"
  shows "readCell (writeCell b r c v) r' c' =
         (if r' = r \<and> c' = c then Inr (Value v) else readCell b r' c')"
proof -
  have r: "nat r < length b" and c: "nat c < length (b ! nat r)" using assms by auto
  show ?thesis
  proof (cases "r' < 0 \<or> int (length b) \<le> r'")
    case True
    with assms show ?thesis by (auto simp: readCell_def writeCell_def)
  next
    case False
    then have r': "nat r' < length b" by auto
    show ?thesis
    proof (cases "r' = r")
      case True
      with assms r c show ?thesis
        by (auto simp: readCell_def writeCell_def nth_list_update)
    next
      case False
      then have "nat r' \<noteq> nat r" using assms(1) \<open>\<not> (r' < 0 \<or> int (length b) \<le> r')\<close> by auto
      with False r r' show ?thesis
        by (auto simp: readCell_def writeCell_def nth_list_update)
    qed
  qed
qed

text \<open>
  The board after a red token has landed on three red tokens stacked at the bottom of
  column 3: the vertical axis gives the line, unless row 2 already gives one.
\<close>

lemma checkWinner_vertical_stack:
  assumes wf: "wf_board b'"
    and placed: "readCell b' 2 3 = Inr (Value (Some Red))"
    and r3: "readCell b' 3 3 = Inr (Value (Some Red))"
    and r4: "readCell b' 4 3 = Inr (Value (Some Red))"
    and r5: "readCell b' 5 3 = Inr (Value (Some Red))"
    and r1: "readCell b' 1 3 \<noteq> Inr (Value (Some Red))"
    and horiz: "\<not> fourOnAxis b' Red 2 3 (0, 1)"
  shows "checkWinner b' 2 3 = Some (Inr (Some [(2, 3), (3, 3), (4, 3), (5, 3)]))"
proof -
  have len: "ROWS \<le> int (length b')" using wf by (simp add: wf_board_def)
  have m0: "matches b' Red 2 3" using placed by (simp add: matches_def ROWS_def COLS_def)
  have nz: "((0, 1) :: int \<times> int) \<noteq> (0, 0)" by simp
  from checkWinner_axis[OF len nz, of Red 2 3]
  obtain n1 n2 where
    ax: "checkWinner_direction b' Red 2 3 [(0, 1), (0, - 1)] [(2, 3)] =
                   Some (Inr (axisLine 2 3 (0, 1) n1 n2))"
    and a1: "\<forall>k<n1. matches b' Red (2 + (1 + int k) * 0) (3 + (1 + int k) * 1)"
    and s1: "\<not> matches b' Red (2 + (1 + int n1) * 0) (3 + (1 + int n1) * 1)"
    and a2: "\<forall>k<n2. matches b' Red (2 - (1 + int k) * 0) (3 - (1 + int k) * 1)"
    and s2: "\<not> matches b' Red (2 - (1 + int n2) * 0) (3 - (1 + int n2) * 1)"
    by auto
  have short: "\<not> 4 \<le> 1 + n1 + n2"
    using run_four_iff[OF m0 a1 s1 a2 s2] horiz by simp
  have down: "checkWinner_while b' Red 1 0 3 3 [(2, 3)] =
              Some (Inr [(2, 3), (3, 3), (4, 3), (5, 3)])"
    using r3 r4 r5
    by (simp add: checkWinner_while.simps[where r = 3 and c = 3]
        checkWinner_while.simps[where r = 4 and c = 3]
        checkWinner_while.simps[where r = 5 and c = 3]
        checkWinner_while.simps[where r = 6 and c = 3] ROWS_def COLS_def)
  have up: "checkWinner_while b' Red (- 1) 0 1 3 line = Some (Inr line)" for line
  proof -
    obtain v where v: "readCell b' 1 3 = Inr v"
      using readCell_in_rows[of 1 b' 3] len by (auto simp: ROWS_def)
    with r1 show ?thesis
      by (simp add: checkWinner_while.simps[where r = 1 and c = 3] ROWS_def COLS_def)
  qed
  have vert: "checkWinner_direction b' Red 2 3 [(1, 0), (- 1, 0)] [(2, 3)] =
              Some (Inr [(2, 3), (3, 3), (4, 3), (5, 3)])"
    using down up by simp
  have "checkWinner_directions b' Red 2 3 directions =
        Some (Inr (Some [(2, 3), (3, 3), (4, 3), (5, 3)]))"
    using ax short vert by (simp add: directions_def)
  then show ?thesis using placed by (simp add: checkWinner_def)
qed

text \<open>
  Claim C9, as amended. Take a state with no winner, no bot move or animation pending
  and red to move, on a 6x7 board whose column 3 holds red tokens at rows 5, 4, 3
  and no red token at row 1, and whose cell \<open>(2, 3)\<close> is empty. If the new token does
  not complete four in row 2 (the horizontal axis is checked first), then dropping
  in column 3 places the red token at row 2, records red as the winner, and the
  winning line is \<open>[(2,3), (3,3), (4,3), (5,3)]\<close>: the placed cell first, then the
  cells below it, in the order the detector walks them.
\<close>

theorem dropPiece_fourth_in_column:
  assumes wf: "wf_board (board gs)"
    and idle: "winner gs = None" "\<not> isBotThinking gs" "animatingPiece gs = None"
    and turn: "currentPlayer gs = Some Red"
    and r5: "readCell (board gs) 5 3 = Inr (Value (Some Red))"
    and r4: "readCell (board gs) 4 3 = Inr (Value (Some Red))"
    and r3: "readCell (board gs) 3 3 = Inr (Value (Some Red))"
    and r2: "readCell (board gs) 2 3 = Inr (Value None)"
    and r1: "readCell (board gs) 1 3 \<noteq> Inr (Value (Some Red))"
    and horiz: "\<not> fourOnAxis (writeCell (board gs) 2 3 (Some Red)) Red 2 3 (0, 1)"
  shows "\<exists>gs'. dropPiece_settled gs 3 = Some (Inr gs') \<and>
           board gs' = writeCell (board gs) 2 3 (Some Red) \<and>
           winner gs' = Some Red \<and>
           winningLine gs' = Some [(2, 3), (3, 3), (4, 3), (5, 3)]"
proof -
  define b where "b = board gs"
  define b' where "b' = writeCell b 2 3 (Some Red)"
  have wfb: "wf_board b" using wf by (simp add: b_def)
  have rows: "(2 :: int) < int (length b)" and cols: "(3 :: int) < int (length (b ! nat 2))"
    using wf_board_row[OF wfb, of 2] by (simp_all add: ROWS_def COLS_def)
  have rw: "readCell b' r c = (if r = 2 \<and> c = 3 then Inr (Value (Some Red)) else readCell b r c)"
    for r c
    unfolding b'_def using readCell_writeCell[of 2 b 3] rows cols by simp
  have lands: "landsAt b 3 2"
  proof -
    have "readCell b k 3 \<noteq> Inr (Value None)" if "2 < k \<and> k < ROWS" for k
    proof -
      from that have "k = 3 \<or> k = 4 \<or> k = 5" by (auto simp: ROWS_def)
      with r3 r4 r5 show ?thesis by (auto simp: b_def)
    qed
    with r2 show ?thesis by (simp add: landsAt_iff b_def ROWS_def COLS_def)
  qed
  have row: "getLowestEmptyRow b 3 = Inr 2"
  proof -
    from getLowestEmptyRow_landsAt[OF wfb, of 3] lands
    obtain r where r: "getLowestEmptyRow b 3 = Inr r" "landsAt b 3 r" by blast
    from landsAt_unique[OF lands r(2)] r(1) show ?thesis by simp
  qed
  have cw: "checkWinner b' 2 3 = Some (Inr (Some [(2, 3), (3, 3), (4, 3), (5, 3)]))"
  proof (rule checkWinner_vertical_stack)
    show "wf_board b'" unfolding b'_def by (rule wf_board_writeCell[OF wfb])
    show "readCell b' 2 3 = Inr (Value (Some Red))" by (simp add: rw)
    show "readCell b' 3 3 = Inr (Value (Some Red))" using r3 by (simp add: rw b_def)
    show "readCell b' 4 3 = Inr (Value (Some Red))" using r4 by (simp add: rw b_def)
    show "readCell b' 5 3 = Inr (Value (Some Red))" using r5 by (simp add: rw b_def)
    show "readCell b' 1 3 \<noteq> Inr (Value (Some Red))" using r1 by (simp add: rw b_def)
    show "\<not> fourOnAxis b' Red 2 3 (0, 1)" using horiz by (simp add: b'_def b_def)
  qed
  have click: "dropPiece gs 3 =
      Inr (gs\<lparr>animatingPiece := Some (2, 3)\<rparr>,
           Some \<lparr>newBoard = b, dropRow = 2, dropCol = 3, captured = gs\<rparr>)"
    using idle row by (simp add: dropPiece_def b_def)
  have timer: "dropPiece_timeout \<lparr>newBoard = b, dropRow = 2, dropCol = 3, captured = gs\<rparr>
        (gs\<lparr>animatingPiece := Some (2, 3)\<rparr>) =
      Some (Inr (gs\<lparr>animatingPiece := Some (2, 3)\<rparr>
        \<lparr>board := b', currentPlayer := Some Yellow, winner := Some Red,
         winningLine := Some [(2, 3), (3, 3), (4, 3), (5, 3)], animatingPiece := None,
         isBotThinking := False\<rparr>))"
    using cw turn unfolding dropPiece_timeout_def b'_def by (simp add: Let_def)
  show ?thesis
    unfolding dropPiece_settled_def click
    using timer by (simp add: b'_def b_def)
qed

theorem dropPiece_fourth_in_column_witness:
  "wf_board (board state_red_three) \<and> noLine (board state_red_three) \<and>
   readCell (board state_red_three) 2 3 = Inr (Value None) \<and>
   map_option (map_sum id board) (dropPiece_settled state_red_three 3) =
     Some (Inr board_red_won) \<and>
   map_option (map_sum id winner) (dropPiece_settled state_red_three 3) =
     Some (Inr (Some Red)) \<and>
   map_option (map_sum id winningLine) (dropPiece_settled state_red_three 3) =
     Some (Inr (Some [(2, 3), (3, 3), (4, 3), (5, 3)]))"
proof -
  have wf: "wf_board (board state_red_three)" by code_simp
  have nl: "noLine (board state_red_three)" by code_simp
  have idle: "winner state_red_three = None" "\<not> isBotThinking state_red_three"
    "animatingPiece state_red_three = None"
    by (simp_all add: state_red_three_def)
  have turn: "currentPlayer state_red_three = Some Red"
    by (simp add: state_red_three_def R_def)
  have r5: "readCell (board state_red_three) 5 3 = Inr (Value (Some Red))" by code_simp
  have r4: "readCell (board state_red_three) 4 3 = Inr (Value (Some Red))" by code_simp
  have r3: "readCell (board state_red_three) 3 3 = Inr (Value (Some Red))" by code_simp
  have r2: "readCell (board state_red_three) 2 3 = Inr (Value None)" by code_simp
  have r1: "readCell (board state_red_three) 1 3 \<noteq> Inr (Value (Some Red))" by code_simp
  have h: "\<not> fourOnAxis (writeCell (board state_red_three) 2 3 (Some Red)) Red 2 3 (0, 1)"
    by code_simp
  have after: "writeCell (board state_red_three) 2 3 (Some Red) = board_red_won" by code_simp
  from dropPiece_fourth_in_column[OF wf idle turn r5 r4 r3 r2 r1 h]
  obtain gs' where "dropPiece_settled state_red_three 3 = Some (Inr gs')"
    "board gs' = writeCell (board state_red_three) 2 3 (Some Red)"
    "winner gs' = Some Red" "winningLine gs' = Some [(2, 3), (3, 3), (4, 3), (5, 3)]"
    by blast
  with wf nl r2 after show ?thesis by simp
qed

text \<open>
  The claim as it was stated fails on the order of the line, and on a board where the
  same drop also completes four in row 2: there the horizontal line is the one
  reported.
\<close>

theorem dropPiece_fourth_in_column_counterexample:
  "noLine (board state_red_three) \<and>
   map_option (map_sum id winningLine) (dropPiece_settled state_red_three 3) =
     Some (Inr (Some [(2, 3), (3, 3), (4, 3), (5, 3)])) \<and>
   map_option (map_sum id winningLine) (dropPiece_settled state_red_three 3) \<noteq>
     Some (Inr (Some [(5, 3), (4, 3), (3, 3), (2, 3)])) \<and>
   noLine (board state_red_row) \<and>
   map_option (map_sum id winningLine) (dropPiece_settled state_red_row 3) =
     Some (Inr (Some [(2, 3), (2, 2), (2, 1), (2, 0)]))"
proof -
  have a: "noLine (board state_red_three)" by code_simp
  have b: "map_option (map_sum id winningLine) (dropPiece_settled state_red_three 3) =
     Some (Inr (Some [(2, 3), (3, 3), (4, 3), (5, 3)]))" by code_simp
  have c: "noLine (board state_red_row)" by code_simp
  have d: "map_option (map_sum id winningLine) (dropPiece_settled state_red_row 3) =
     Some (Inr (Some [(2, 3), (2, 2), (2, 1), (2, 0)]))" by code_simp
  have e: "map_option (map_sum id winningLine) (dropPiece_settled state_red_three 3) \<noteq>
     Some (Inr (Some [(5, 3), (4, 3), (3, 3), (2, 3)]))"
    unfolding b by simp
  from a b e c d show ?thesis by (intro conjI)
qed

section \<open>\<open>getBotMove\<close> leaves the caller's board alone\<close>

declare getBotMove_scanH.simps [simp del]

declare getBotMove_validCols.simps [simp del]

lemma copyRow_frame:
  "copyRow s a = (a', s') \<Longrightarrow>
   a' = nextAddr s \<and> nextAddr s' = Suc (nextAddr s) \<and>
   (\<forall>x. x \<noteq> nextAddr s \<longrightarrow> rowsAt s' x = rowsAt s x) \<and>
   rowsAt s' (nextAddr s) = Some (loadRow s a)"
  by (auto simp: copyRow_def)

lemma copyBoardH_frame:
  "copyBoardH s brd = (refs, s') \<Longrightarrow>
   nextAddr s' = nextAddr s + length brd \<and>
   refs = [nextAddr s..<nextAddr s + length brd] \<and>
   (\<forall>x<nextAddr s. rowsAt s' x = rowsAt s x)"
proof (induction brd arbitrary: s refs s')
  case Nil
  then show ?case by simp
next
  case (Cons a as)
  obtain a' s1 where c1: "copyRow s a = (a', s1)" by (cases "copyRow s a")
  obtain as' s2 where c2: "copyBoardH s1 as = (as', s2)" by (cases "copyBoardH s1 as")
  from Cons.prems c1 c2 have res: "refs = a' # as'" "s' = s2" by simp_all
  from copyRow_frame[OF c1] have f1: "a' = nextAddr s" "nextAddr s1 = Suc (nextAddr s)"
    "\<forall>x. x \<noteq> nextAddr s \<longrightarrow> rowsAt s1 x = rowsAt s x" by simp_all
  from Cons.IH[OF c2] have f2: "nextAddr s2 = nextAddr s1 + length as"
    "as' = [nextAddr s1..<nextAddr s1 + length as]"
    "\<forall>x<nextAddr s1. rowsAt s2 x = rowsAt s1 x" by simp_all
  have "nextAddr s' = nextAddr s + length (a # as)" using res f1 f2 by simp
  moreover have "[n..<n + Suc k] = n # [Suc n..<Suc n + k]" for n k :: nat
    by (subst upt_rec) simp
  then have "refs = [nextAddr s..<nextAddr s + length (a # as)]"
    using res f1 f2 by simp
  moreover have "\<forall>x<nextAddr s. rowsAt s' x = rowsAt s x"
    using res f1 f2 by simp
  ultimately show ?case by blast
qed

lemma storeCell_frame:
  "nextAddr (storeCell s brd row col v) = nextAddr s"
  "a \<noteq> brd ! nat row \<Longrightarrow> rowsAt (storeCell s brd row col v) a = rowsAt s a"
  by (simp_all add: storeCell_def)

lemma getLowestEmptyRow_loop_found:
  "getLowestEmptyRow_loop b col row = Inr r \<Longrightarrow> r \<noteq> - 1 \<Longrightarrow>
   0 \<le> r \<and> r \<le> row \<and> readCell b r col = Inr (Value None)"
proof (induction b col row rule: getLowestEmptyRow_loop.induct)
  case (1 b col row)
  show ?case
  proof (cases "row \<ge> 0")
    case False
    with "1.prems" show ?thesis by (simp add: getLowestEmptyRow_loop.simps)
  next
    case True
    show ?thesis
    proof (cases "readCell b row col")
      case (Inl e)
      with True "1.prems" show ?thesis by (simp add: getLowestEmptyRow_loop.simps[of b col row])
    next
      case (Inr v)
      show ?thesis
      proof (cases "v = Value None")
        case True
        with \<open>row \<ge> 0\<close> Inr "1.prems" show ?thesis
          by (simp add: getLowestEmptyRow_loop.simps[of b col row])
      next
        case False
        with \<open>row \<ge> 0\<close> Inr "1.prems"(1)
        have "getLowestEmptyRow_loop b col (row - 1) = Inr r"
          by (simp add: getLowestEmptyRow_loop.simps[of b col row])
        from "1.IH"[OF True Inr False this "1.prems"(2)] show ?thesis by simp
      qed
    qed
  qed
qed

text \<open>The cell that \<open>getLowestEmptyRow\<close> returns exists in the board.\<close>

lemma getLowestEmptyRow_in_board:
  assumes "getLowestEmptyRow b col = Inr row" "row \<noteq> - 1"
  shows "0 \<le> row \<and> row < int (length b) \<and> 0 \<le> col \<and> col < int (length (b ! nat row)) \<and>
         b ! nat row ! nat col = None"
proof -
  from getLowestEmptyRow_loop_found[OF assms(1)[unfolded getLowestEmptyRow_def] assms(2)]
  have "0 \<le> row" "readCell b row col = Inr (Value None)" by simp_all
  then show ?thesis by (auto simp: readCell_def split: if_splits)
qed


text \<open>
  The scan writes only to the rows it has allocated itself: below any address \<open>n\<close>
  that was allocated before the call, the store is as it was.
\<close>

lemma getBotMove_scanH_frame:
  assumes "n \<le> nextAddr s"
  shows "n \<le> nextAddr (snd (getBotMove_scanH s brd token col)) \<and>
         (\<forall>a<n. rowsAt (snd (getBotMove_scanH s brd token col)) a = rowsAt s a)"
  using assms
proof (induction s brd token col rule: getBotMove_scanH.induct)
  case (1 s brd token col)
  show ?case
  proof (cases "col < COLS")
    case False
    then have "getBotMove_scanH s brd token col = (Some (Inr None), s)"
      by (subst getBotMove_scanH.simps) simp
    with "1.prems" show ?thesis by simp
  next
    case inside: True
    obtain testBoard s1 where cp: "copyBoardH s brd = (testBoard, s1)"
      by (cases "copyBoardH s brd")
    from copyBoardH_frame[OF cp] have
      next1: "nextAddr s1 = nextAddr s + length brd" and
      refs: "testBoard = [nextAddr s..<nextAddr s + length brd]" and
      keep1: "\<forall>x<nextAddr s. rowsAt s1 x = rowsAt s x"
      by simp_all
    have n1: "n \<le> nextAddr s1" using next1 "1.prems" by simp
    have same1: "\<forall>a<n. rowsAt s1 a = rowsAt s a" using keep1 "1.prems" by simp
    show ?thesis
    proof (cases "getLowestEmptyRow (loadBoard s1 testBoard) col")
      case (Inl e)
      then have "getBotMove_scanH s brd token col = (Some (Inl e), s1)"
        using inside cp by (subst getBotMove_scanH.simps) simp
      with n1 same1 show ?thesis by simp
    next
      case (Inr row)
      show ?thesis
      proof (cases "row \<noteq> - 1")
        case False
        then have step: "getBotMove_scanH s brd token col = getBotMove_scanH s1 brd token (col + 1)"
          using inside cp Inr by (subst getBotMove_scanH.simps) simp
        from "1.IH"(2)[OF inside refl cp[symmetric] Inr False n1] same1
        show ?thesis unfolding step by simp
      next
        case found: True
        define s2 where "s2 = storeCell s1 testBoard row col token"
        from getLowestEmptyRow_in_board[OF Inr found]
        have row: "0 \<le> row" "nat row < length testBoard" by (auto simp: loadBoard_def)
        then have target: "testBoard ! nat row = nextAddr s + nat row"
          unfolding refs by simp
        have n2: "n \<le> nextAddr s2" using n1 by (simp add: s2_def storeCell_frame)
        have same2: "\<forall>a<n. rowsAt s2 a = rowsAt s a"
        proof (intro allI impI)
          fix a assume "a < n"
          with "1.prems" target have "a \<noteq> testBoard ! nat row" by simp
          then have "rowsAt s2 a = rowsAt s1 a" by (simp add: s2_def storeCell_frame)
          with same1 \<open>a < n\<close> show "rowsAt s2 a = rowsAt s a" by simp
        qed
        show ?thesis
        proof (cases "checkWinnerStatic (loadBoard s2 testBoard) row col")
          case None
          then have "getBotMove_scanH s brd token col = (None, s2)"
            using inside cp Inr found
            by (subst getBotMove_scanH.simps) (simp add: s2_def)
          with n2 same2 show ?thesis by simp
        next
          case (Some res)
          show ?thesis
          proof (cases res)
            case (Inl e)
            then have "getBotMove_scanH s brd token col = (Some (Inl e), s2)"
              using inside cp Inr found Some
              by (subst getBotMove_scanH.simps) (simp add: s2_def)
            with n2 same2 show ?thesis by simp
          next
            case won: (Inr won)
            show ?thesis
            proof (cases won)
              case True
              then have "getBotMove_scanH s brd token col = (Some (Inr (Some col)), s2)"
                using inside cp Inr found Some won
                by (subst getBotMove_scanH.simps) (simp add: s2_def)
              with n2 same2 show ?thesis by simp
            next
              case False
              then have step: "getBotMove_scanH s brd token col = getBotMove_scanH s2 brd token (col + 1)"
                using inside cp Inr found Some won
                by (subst getBotMove_scanH.simps) (simp add: s2_def)
              have cw: "checkWinnerStatic (loadBoard s2 testBoard) row col = Some res"
                by (rule Some)
              from "1.IH"(1)[OF inside refl cp[symmetric] Inr found s2_def cw won False n2] same2
              show ?thesis unfolding step by simp
            qed
          qed
        qed
      qed
    qed
  qed
qed

lemma getBotMoveH_frame:
  assumes "n \<le> nextAddr s"
  shows "n \<le> nextAddr (snd (getBotMoveH pick s brd botPlayer)) \<and>
         (\<forall>a<n. rowsAt (snd (getBotMoveH pick s brd botPlayer)) a = rowsAt s a)"
proof -
  define opponent where "opponent = (if botPlayer = Some Red then Some Yellow else Some Red)"
  obtain r1 s1 where first: "getBotMove_scanH s brd botPlayer 0 = (r1, s1)"
    by (cases "getBotMove_scanH s brd botPlayer 0")
  obtain r2 s2 where second: "getBotMove_scanH s1 brd opponent 0 = (r2, s2)"
    by (cases "getBotMove_scanH s1 brd opponent 0")
  have f1: "n \<le> nextAddr s1" "\<forall>a<n. rowsAt s1 a = rowsAt s a"
    using getBotMove_scanH_frame[OF assms, of brd botPlayer 0] by (simp_all add: first)
  have f2: "n \<le> nextAddr s2" "\<forall>a<n. rowsAt s2 a = rowsAt s a"
    using getBotMove_scanH_frame[OF f1(1), of brd opponent 0] f1(2)
    by (simp_all add: second)
  have "snd (getBotMoveH pick s brd botPlayer) = s1 \<or> snd (getBotMoveH pick s brd botPlayer) = s2"
    unfolding getBotMoveH_def Let_def opponent_def[symmetric] first
    by (simp add: second split: option.splits sum.splits)
  with f1 f2 show ?thesis by auto
qed

lemma loadRow_frame: "rowsAt s' a = rowsAt s a \<Longrightarrow> loadRow s' a = loadRow s a"
  by (simp add: loadRow_def)

lemma loadBoard_frame:
  assumes "\<forall>a\<in>set brd. a < n" "\<forall>a<n. rowsAt s' a = rowsAt s a"
  shows "loadBoard s' brd = loadBoard s brd"
proof -
  have "loadRow s' a = loadRow s a" if "a \<in> set brd" for a
    using that assms by (intro loadRow_frame) simp
  then show ?thesis by (simp add: loadBoard_def)
qed

text \<open>The copy denotes the board it was made from.\<close>

lemma copyBoardH_loadBoard:
  assumes "copyBoardH s brd = (refs, s')" "\<forall>a\<in>set brd. a < nextAddr s"
  shows "loadBoard s' refs = loadBoard s brd"
  using assms
proof (induction brd arbitrary: s refs s')
  case Nil
  then show ?case by (simp add: loadBoard_def)
next
  case (Cons a as)
  obtain a' s1 where c1: "copyRow s a = (a', s1)" by (cases "copyRow s a")
  obtain as' s2 where c2: "copyBoardH s1 as = (as', s2)" by (cases "copyBoardH s1 as")
  from Cons.prems(1) c1 c2 have res: "refs = a' # as'" "s' = s2" by simp_all
  from copyRow_frame[OF c1] have f1: "a' = nextAddr s" "nextAddr s1 = Suc (nextAddr s)"
    "\<forall>x. x \<noteq> nextAddr s \<longrightarrow> rowsAt s1 x = rowsAt s x"
    "rowsAt s1 (nextAddr s) = Some (loadRow s a)" by simp_all
  have below: "\<forall>x\<in>set as. x < nextAddr s1" using Cons.prems(2) f1(2) by auto
  from Cons.IH[OF c2 below] have IH: "loadBoard s2 as' = loadBoard s1 as" .
  have "loadBoard s1 as = loadBoard s as"
  proof (rule loadBoard_frame[of as "nextAddr s"])
    show "\<forall>x\<in>set as. x < nextAddr s" using Cons.prems(2) by simp
    show "\<forall>x<nextAddr s. rowsAt s1 x = rowsAt s x" using f1(3) by simp
  qed
  moreover have "loadRow s2 a' = loadRow s a"
  proof -
    from copyBoardH_frame[OF c2] have "rowsAt s2 (nextAddr s) = rowsAt s1 (nextAddr s)"
      using f1(2) by simp
    with f1(1,4) show ?thesis by (simp add: loadRow_def)
  qed
  ultimately show ?case using res IH by (simp add: loadBoard_def)
qed

text \<open>A write through the copy is the write on the board the copy denotes.\<close>

lemma storeCell_loadBoard:
  assumes "distinct refs" "0 \<le> row" "nat row < length refs"
  shows "loadBoard (storeCell s refs row col v) refs = writeCell (loadBoard s refs) row col v"
proof (rule nth_equalityI)
  show "length (loadBoard (storeCell s refs row col v) refs) =
        length (writeCell (loadBoard s refs) row col v)"
    by (simp add: loadBoard_def writeCell_def)
next
  fix i assume "i < length (loadBoard (storeCell s refs row col v) refs)"
  then have i: "i < length refs" by (simp add: loadBoard_def)
  show "loadBoard (storeCell s refs row col v) refs ! i =
        writeCell (loadBoard s refs) row col v ! i"
  proof (cases "i = nat row")
    case True
    with i show ?thesis
      by (simp add: loadBoard_def writeCell_def storeCell_def loadRow_def)
  next
    case False
    with i assms have "refs ! i \<noteq> refs ! nat row" by (simp add: nth_eq_iff_index_eq)
    with i False show ?thesis
      by (simp add: loadBoard_def writeCell_def storeCell_def loadRow_def)
  qed
qed

text \<open>On a store that holds the caller's board, the scan returns what it returns on values.\<close>

lemma getBotMove_scanH_result:
  assumes "\<forall>a\<in>set brd. a < nextAddr s"
  shows "fst (getBotMove_scanH s brd token col) = getBotMove_scan (loadBoard s brd) token col"
  using assms
proof (induction s brd token col rule: getBotMove_scanH.induct)
  case (1 s brd token col)
  let ?b = "loadBoard s brd"
  show ?case
  proof (cases "col < COLS")
    case False
    then show ?thesis
      by (subst getBotMove_scanH.simps, subst getBotMove_scan.simps) simp
  next
    case inside: True
    obtain testBoard s1 where cp: "copyBoardH s brd = (testBoard, s1)"
      by (cases "copyBoardH s brd")
    from copyBoardH_frame[OF cp] have
      next1: "nextAddr s1 = nextAddr s + length brd" and
      refs: "testBoard = [nextAddr s..<nextAddr s + length brd]" and
      keep1: "\<forall>x<nextAddr s. rowsAt s1 x = rowsAt s x"
      by simp_all
    have copy: "loadBoard s1 testBoard = ?b" by (rule copyBoardH_loadBoard[OF cp "1.prems"])
    have own1: "loadBoard s1 brd = ?b" by (rule loadBoard_frame[OF "1.prems" keep1])
    have below1: "\<forall>a\<in>set brd. a < nextAddr s1" using "1.prems" next1 by auto
    show ?thesis
    proof (cases "getLowestEmptyRow ?b col")
      case (Inl e)
      then show ?thesis
        using inside cp copy
        by (subst getBotMove_scanH.simps, subst getBotMove_scan.simps) simp
    next
      case (Inr row)
      then have lr: "getLowestEmptyRow (loadBoard s1 testBoard) col = Inr row" by (simp add: copy)
      show ?thesis
      proof (cases "row \<noteq> - 1")
        case False
        have "fst (getBotMove_scanH s brd token col) = fst (getBotMove_scanH s1 brd token (col + 1))"
          using inside cp lr False by (subst getBotMove_scanH.simps) simp
        also have "\<dots> = getBotMove_scan (loadBoard s1 brd) token (col + 1)"
          by (rule "1.IH"(2)[OF inside refl cp[symmetric] lr False below1])
        also have "\<dots> = getBotMove_scan ?b token col"
          using inside Inr False own1 by (subst (2) getBotMove_scan.simps) simp
        finally show ?thesis .
      next
        case found: True
        define s2 where "s2 = storeCell s1 testBoard row col token"
        from getLowestEmptyRow_in_board[OF lr found]
        have row: "0 \<le> row" "nat row < length testBoard" by (auto simp: loadBoard_def)
        have written: "loadBoard s2 testBoard = writeCell ?b row col token"
          unfolding s2_def using storeCell_loadBoard[OF _ row, of s1 col token] copy
          by (simp add: refs)
        have target: "testBoard ! nat row = nextAddr s + nat row"
          using row unfolding refs by simp
        have keep2: "\<forall>x<nextAddr s. rowsAt s2 x = rowsAt s x"
          using keep1 target by (simp add: s2_def storeCell_frame)
        have own2: "loadBoard s2 brd = ?b" by (rule loadBoard_frame[OF "1.prems" keep2])
        have below2: "\<forall>a\<in>set brd. a < nextAddr s2"
          using below1 by (simp add: s2_def storeCell_frame)
        show ?thesis
        proof (cases "checkWinnerStatic (writeCell ?b row col token) row col")
          case None
          then show ?thesis
            using inside cp lr Inr found written
            by (subst getBotMove_scanH.simps, subst getBotMove_scan.simps) (simp add: s2_def)
        next
          case (Some res)
          show ?thesis
          proof (cases res)
            case (Inl e)
            then show ?thesis
              using inside cp lr Inr found written Some
              by (subst getBotMove_scanH.simps, subst getBotMove_scan.simps) (simp add: s2_def)
          next
            case won: (Inr won)
            show ?thesis
            proof (cases won)
              case True
              then show ?thesis
                using inside cp lr Inr found written Some won
                by (subst getBotMove_scanH.simps, subst getBotMove_scan.simps) (simp add: s2_def)
            next
              case False
              have cw: "checkWinnerStatic (loadBoard s2 testBoard) row col = Some res"
                using Some written by simp
              have "fst (getBotMove_scanH s brd token col) =
                    fst (getBotMove_scanH s2 brd token (col + 1))"
                using inside cp lr found cw won False
                by (subst getBotMove_scanH.simps) (simp add: s2_def)
              also have "\<dots> = getBotMove_scan (loadBoard s2 brd) token (col + 1)"
                by (rule "1.IH"(1)[OF inside refl cp[symmetric] lr found s2_def cw won False below2])
              also have "\<dots> = getBotMove_scan ?b token col"
                using inside Inr found Some won False own2
                by (subst (2) getBotMove_scan.simps) simp
              finally show ?thesis .
            qed
          qed
        qed
      qed
    qed
  qed
qed

text \<open>The write goes to the row array the reference names.\<close>

lemma storeCell_writes:
  "loadRow (storeCell s brd row col v) (brd ! nat row) = (loadRow s (brd ! nat row))[nat col := v]"
  by (simp add: storeCell_def loadRow_def)

lemma getBotMoveH_result:
  assumes "\<forall>a\<in>set brd. a < nextAddr s"
  shows "fst (getBotMoveH pick s brd botPlayer) = getBotMove pick (loadBoard s brd) botPlayer"
proof -
  define opponent where "opponent = (if botPlayer = Some Red then Some Yellow else Some Red)"
  obtain r1 s1 where first: "getBotMove_scanH s brd botPlayer 0 = (r1, s1)"
    by (cases "getBotMove_scanH s brd botPlayer 0")
  obtain r2 s2 where second: "getBotMove_scanH s1 brd opponent 0 = (r2, s2)"
    by (cases "getBotMove_scanH s1 brd opponent 0")
  have r1: "getBotMove_scan (loadBoard s brd) botPlayer 0 = r1"
    using getBotMove_scanH_result[OF assms, of botPlayer 0] by (simp add: first)
  have f1: "nextAddr s \<le> nextAddr s1" "\<forall>a<nextAddr s. rowsAt s1 a = rowsAt s a"
    using getBotMove_scanH_frame[OF order_refl, of s brd botPlayer 0] by (simp_all add: first)
  have own1: "loadBoard s1 brd = loadBoard s brd"
    by (rule loadBoard_frame[OF assms f1(2)])
  have below1: "\<forall>a\<in>set brd. a < nextAddr s1" using assms f1(1) by auto
  have r2: "getBotMove_scan (loadBoard s brd) opponent 0 = r2"
    using getBotMove_scanH_result[OF below1, of opponent 0] by (simp add: second own1)
  have f2: "\<forall>a<nextAddr s. rowsAt s2 a = rowsAt s a"
    using getBotMove_scanH_frame[OF f1(1), of brd opponent 0] f1(2) by (simp add: second)
  have own2: "loadBoard s2 brd = loadBoard s brd"
    by (rule loadBoard_frame[OF assms f2])
  show ?thesis
    unfolding getBotMoveH_def getBotMove_def Let_def opponent_def[symmetric] first r1 r2
    by (simp add: second own2 split: option.splits sum.splits)
qed

text \<open>
  Claim C8. Let the rows of the caller's board be arrays of the store (their addresses
  are allocated). After \<open>getBotMove\<close> has returned, for every bot player and every random
  draw, each of these arrays holds the cells it held before, so the board reads as
  before the call; more generally no array that existed before the call has changed.
  The simulations write only to the rows of their own copies. The column returned is
  the one \<open>getBotMove\<close> computes on the board as a value.
\<close>

theorem getBotMove_preserves_board:
  assumes "\<forall>a\<in>set brd. a < nextAddr s"
  shows "loadBoard (snd (getBotMoveH pick s brd botPlayer)) brd = loadBoard s brd \<and>
         (\<forall>a<nextAddr s. rowsAt (snd (getBotMoveH pick s brd botPlayer)) a = rowsAt s a) \<and>
         fst (getBotMoveH pick s brd botPlayer) = getBotMove pick (loadBoard s brd) botPlayer"
proof -
  have keep: "\<forall>a<nextAddr s. rowsAt (snd (getBotMoveH pick s brd botPlayer)) a = rowsAt s a"
    using getBotMoveH_frame[OF order_refl, of s pick brd botPlayer] by simp
  have "loadBoard (snd (getBotMoveH pick s brd botPlayer)) brd = loadBoard s brd"
    by (rule loadBoard_frame[OF assms keep])
  with keep getBotMoveH_result[OF assms] show ?thesis by simp
qed

theorem getBotMove_preserves_board_witness:
  "loadBoard (storeOf board_stack) [0..<6] = board_stack \<and>
   loadBoard (snd (getBotMoveH (\<lambda>n. 0) (storeOf board_stack) [0..<6] (Some Yellow))) [0..<6] =
     board_stack \<and>
   fst (getBotMoveH (\<lambda>n. 0) (storeOf board_stack) [0..<6] (Some Yellow)) = Some (Inr (Some 3))"
proof -
  have alloc: "\<forall>a\<in>set [0..<6]. a < nextAddr (storeOf board_stack)" by code_simp
  have before: "loadBoard (storeOf board_stack) [0..<6] = board_stack" by code_simp
  have res: "getBotMove (\<lambda>n. 0) board_stack (Some Yellow) = Some (Inr (Some 3))" by code_simp
  from getBotMove_preserves_board[OF alloc, of "\<lambda>n. 0" "Some Yellow"]
  have "loadBoard (snd (getBotMoveH (\<lambda>n. 0) (storeOf board_stack) [0..<6] (Some Yellow))) [0..<6] =
          loadBoard (storeOf board_stack) [0..<6]"
    and "fst (getBotMoveH (\<lambda>n. 0) (storeOf board_stack) [0..<6] (Some Yellow)) =
          getBotMove (\<lambda>n. 0) (loadBoard (storeOf board_stack) [0..<6]) (Some Yellow)"
    by blast+
  then show ?thesis unfolding before res by (intro conjI refl)
qed

end
